theory Spec2Isabelle
  imports Complex_Main "HOL-Library.Word" "HOL-Library.Extended_Nat"
begin

section \<open>Payloads and chunks\<close>

text \<open>
  A payload is a browser \<^verbatim>\<open>Blob\<close>: an immutable sequence of bytes with a known
  size. Only its bytes matter to the transport core, so a blob is a list of bytes and
  \<^verbatim>\<open>blob.size\<close> is its length. \<^verbatim>\<open>Blob.slice(start, end)\<close> with non-negative
  offsets clamps both offsets to the size and yields the bytes in \<open>[start, end)\<close>.
\<close>

type_synonym byte = "8 word"
type_synonym blob = "byte list"

definition blob_slice :: "nat \<Rightarrow> nat \<Rightarrow> blob \<Rightarrow> blob" where
  "blob_slice startByte endByte b = take (endByte - startByte) (drop startByte b)"

text \<open>
  \<^verbatim>\<open>Math.ceil(a / b)\<close> on byte counts, written on natural numbers.
\<close>

definition ceil_div :: "nat \<Rightarrow> nat \<Rightarrow> nat" where
  "ceil_div a b = (a + b - 1) div b"

text \<open>
  The byte range of the chunk with a given index, as the chunk transport computes it
  (\<^verbatim>\<open>uploadChunk\<close>, \<^verbatim>\<open>uploadScreenChunk\<close>, \<^verbatim>\<open>uploadWebcamChunk\<close>):
  \<^verbatim>\<open>
  const start = chunkIndex * chunkSize;
  const end = Math.min(start + chunkSize, totalSize);
  \<close>
  The range is \<open>[start, end)\<close>.
\<close>

definition chunk_start :: "nat \<Rightarrow> nat \<Rightarrow> nat" where
  "chunk_start chunkIndex chunkSize = chunkIndex * chunkSize"

definition chunk_end :: "nat \<Rightarrow> nat \<Rightarrow> nat \<Rightarrow> nat" where
  "chunk_end chunkIndex chunkSize totalSize =
     min (chunk_start chunkIndex chunkSize + chunkSize) totalSize"

subsection \<open>The chunk slicer\<close>

text \<open>
  \<^verbatim>\<open>sliceBlobIntoChunks(blob, chunkSize)\<close>:
  \<^verbatim>\<open>
  let start = 0;
  while (start < blob.size) {
    const end = Math.min(start + chunkSize, blob.size);
    chunks.push(blob.slice(start, end));
    start = end;
  }
  return chunks;
  \<close>
  The loop does not terminate when \<open>chunkSize = 0\<close> and the blob is not empty, so the
  loop is a partial function: \<open>None\<close> is "never returns".
\<close>

partial_function (option) slice_loop :: "blob \<Rightarrow> nat \<Rightarrow> nat \<Rightarrow> blob list \<Rightarrow> blob list option" where
  "slice_loop b chunkSize start chunks =
     (if start < length b
      then slice_loop b chunkSize (min (start + chunkSize) (length b))
             (chunks @ [blob_slice start (min (start + chunkSize) (length b)) b])
      else Some chunks)"

declare slice_loop.simps [code]

definition sliceBlobIntoChunks :: "blob \<Rightarrow> nat \<Rightarrow> blob list option" where
  "sliceBlobIntoChunks b chunkSize = slice_loop b chunkSize 0 []"

text \<open>The chunk with index \<open>i\<close>, described by its byte range (used in proofs).\<close>

definition nth_chunk :: "blob \<Rightarrow> nat \<Rightarrow> nat \<Rightarrow> blob" where
  "nth_chunk b c i = blob_slice (chunk_start i c) (chunk_end i c (length b)) b"

section \<open>The resume calculator\<close>

text \<open>
  \<^verbatim>\<open>calculateStartingChunkIndex(uploadedBytes, chunkSize)\<close>:
  \<^verbatim>\<open>
  if (uploadedBytes === 0) { return 0; }
  const chunkIndex = Math.floor(uploadedBytes / chunkSize);
  return chunkIndex;
  \<close>
  Byte counts are natural numbers. A positive count divided by zero is \<^verbatim>\<open>Infinity\<close>
  in the source, so the result is an extended natural number.
\<close>

definition calculateStartingChunkIndex :: "nat \<Rightarrow> nat \<Rightarrow> enat" where
  "calculateStartingChunkIndex uploadedBytes chunkSize =
     (if uploadedBytes = 0 then 0
      else if chunkSize = 0 then \<infinity>
      else enat (uploadedBytes div chunkSize))"

section \<open>The chunk transport\<close>

text \<open>
  A JavaScript \<^verbatim>\<open>Error\<close> is represented by its message. A call that may throw
  returns \<open>Inl\<close> of the error or \<open>Inr\<close> of its value.
\<close>

type_synonym error = string

text \<open>
  \<^verbatim>\<open>ChunkUploadResult = { uploadedBytes: number; done: boolean }\<close>, the body of a
  successful chunk response.
\<close>

record ChunkUploadResult =
  ack_uploadedBytes :: nat
  ack_done :: bool

text \<open>
  The \<^verbatim>\<open>Content-Range\<close> header \<^verbatim>\<open>bytes start-(end - 1)/total\<close>, as the triple of
  its numbers. The last byte is \<open>end - 1\<close>, which is \<open>-1\<close> for an empty payload.
\<close>

definition contentRange :: "nat \<Rightarrow> nat \<Rightarrow> nat \<Rightarrow> nat \<times> int \<times> nat" where
  "contentRange chunkIndex chunkSize totalSize =
     (chunk_start chunkIndex chunkSize,
      int (chunk_end chunkIndex chunkSize totalSize) - 1,
      totalSize)"

text \<open>
  What one call of the transport did: its outcome (the value returned or the error
  thrown), the number of \<^verbatim>\<open>fetch\<close> requests it issued, and the delays in milliseconds
  it slept between them, in order.
\<close>

record transport_run =
  outcome :: "error + ChunkUploadResult"
  requests :: nat
  delays :: "nat list"

text \<open>
  The retry loop shared by \<^verbatim>\<open>uploadChunk\<close>, \<^verbatim>\<open>uploadScreenChunk\<close> and
  \<^verbatim>\<open>uploadWebcamChunk\<close>:
  \<^verbatim>\<open>
  let lastError = null;
  for (let attempt = 0; attempt < maxRetries; attempt++) {
    try {
      const response = await fetch(..., { method: "PUT", headers, body: chunk });
      if (!response.ok) { throw new Error(...); }
      const result = await response.json();
      return result;
    } catch (error) {
      lastError = error;
      const isLastAttempt = attempt === maxRetries - 1;
      if (isLastAttempt) { throw lastError; }
      const delay = Math.pow(2, attempt) * 1000;
      await new Promise((resolve) => setTimeout(resolve, delay));
    }
  }
  throw lastError || new Error("Chunk upload failed");
  \<close>
  The network is the function \<open>fetch\<close>: the outcome of the request made in the
  attempt with the given number, \<open>Inl\<close> for every way the body of \<^verbatim>\<open>try\<close> throws
  (a network failure, a response that is not ok, a body that is not JSON).
  \<open>fallback\<close> is the message of the error thrown after the loop.
\<close>

function retry_loop ::
  "error \<Rightarrow> (nat \<Rightarrow> error + ChunkUploadResult) \<Rightarrow> nat \<Rightarrow> nat \<Rightarrow> error option \<Rightarrow> transport_run"
where
  "retry_loop fallback fetch maxRetries attempt lastError =
     (if attempt < maxRetries then
        (case fetch attempt of
           Inr result \<Rightarrow> \<lparr>outcome = Inr result, requests = 1, delays = []\<rparr>
         | Inl e \<Rightarrow>
             if attempt = maxRetries - 1
             then \<lparr>outcome = Inl e, requests = 1, delays = []\<rparr>
             else (let rest = retry_loop fallback fetch maxRetries (Suc attempt) (Some e)
                   in \<lparr>outcome = outcome rest, requests = Suc (requests rest),
                       delays = (2 ^ attempt * 1000) # delays rest\<rparr>))
      else \<lparr>outcome = Inl (case lastError of Some e \<Rightarrow> e | None \<Rightarrow> fallback),
             requests = 0, delays = []\<rparr>)"
  by pat_completeness auto
termination
  by (relation "measure (\<lambda>(fallback, fetch, maxRetries, attempt, lastError). maxRetries - attempt)") auto

text \<open>
  \<^verbatim>\<open>uploadChunk(recordingId, chunk, chunkIndex, chunkSize, totalSize, maxRetries = 3)\<close>.
  The identity, the chunk and its range go into the request only; the outcome of each
  request is what \<open>fetch\<close> says. An omitted \<open>maxRetries\<close> is \<open>None\<close>.
\<close>

definition uploadChunk ::
  "string \<Rightarrow> blob \<Rightarrow> nat \<Rightarrow> nat \<Rightarrow> nat \<Rightarrow> nat option \<Rightarrow> (nat \<Rightarrow> error + ChunkUploadResult) \<Rightarrow> transport_run"
where
  "uploadChunk recordingId chunk chunkIndex chunkSize totalSize maxRetries fetch =
     retry_loop ''Chunk upload failed'' fetch (case maxRetries of None \<Rightarrow> 3 | Some m \<Rightarrow> m) 0 None"

text \<open>
  \<^verbatim>\<open>uploadScreenChunk\<close> and \<^verbatim>\<open>uploadWebcamChunk\<close> take the access token before
  \<open>maxRetries\<close> and differ from \<^verbatim>\<open>uploadChunk\<close> in the endpoint and the messages.
\<close>

definition uploadScreenChunk ::
  "string \<Rightarrow> blob \<Rightarrow> nat \<Rightarrow> nat \<Rightarrow> nat \<Rightarrow> string option \<Rightarrow> nat option \<Rightarrow> (nat \<Rightarrow> error + ChunkUploadResult) \<Rightarrow> transport_run"
where
  "uploadScreenChunk recordingId chunk chunkIndex chunkSize totalSize accessToken maxRetries fetch =
     retry_loop ''Screen chunk upload failed'' fetch (case maxRetries of None \<Rightarrow> 3 | Some m \<Rightarrow> m) 0 None"

definition uploadWebcamChunk ::
  "string \<Rightarrow> blob \<Rightarrow> nat \<Rightarrow> nat \<Rightarrow> nat \<Rightarrow> string option \<Rightarrow> nat option \<Rightarrow> (nat \<Rightarrow> error + ChunkUploadResult) \<Rightarrow> transport_run"
where
  "uploadWebcamChunk recordingId chunk chunkIndex chunkSize totalSize accessToken maxRetries fetch =
     retry_loop ''Webcam chunk upload failed'' fetch (case maxRetries of None \<Rightarrow> 3 | Some m \<Rightarrow> m) 0 None"

section \<open>The upload session (\<^verbatim>\<open>useResumableUpload\<close>)\<close>

datatype UploadState =
  Idle | Initializing | Uploading | Completing | Completed | Error | Paused

text \<open>
  \<^verbatim>\<open>UploadProgress = { uploadedBytes, totalBytes, percentage }\<close>. The percentage is
  the exact quotient; the source computes it in floating point.
\<close>

record UploadProgress =
  uploadedBytes :: nat
  totalBytes :: nat
  percentage :: real

text \<open>The responses of the backend calls, with the fields the session reads.\<close>

record InitResult =
  init_recordingId :: string
  init_chunkSize :: nat

record StatusResult =
  status_uploadedBytes :: nat
  status_chunkSize :: nat
  status_fileSize :: nat

record CompleteResult =
  complete_recordingId :: string
  complete_playbackUrl :: "string option"

text \<open>
  The environment of one call of \<^verbatim>\<open>upload\<close> or \<^verbatim>\<open>resume\<close>: the authentication
  state, and for each asynchronous call the session makes, its outcome as a function of
  the arguments. \<open>uploadChunkFn\<close> is the chunk transport the hook imports, called as
  \<^verbatim>\<open>uploadChunk(recordingId, chunk, i, chunkSize, totalSize, accessToken)\<close>: the session
  sees only whether it returns an acknowledgment or throws after its retries.
\<close>

record backend =
  isAuthenticated :: bool
  getAccessToken :: "error + string"
  initResumableUpload :: "nat \<Rightarrow> error + InitResult"
  getUploadStatus :: "string \<Rightarrow> error + StatusResult"
  uploadChunkFn :: "string \<Rightarrow> blob \<Rightarrow> nat \<Rightarrow> nat \<Rightarrow> nat \<Rightarrow> string \<Rightarrow> error + ChunkUploadResult"
  completeVideoUpload :: "string \<Rightarrow> nat \<Rightarrow> error + CompleteResult"

text \<open>
  What the session does that others can observe, in order: the lifecycle states it sets,
  the progress values it sets, and the calls it makes to the backend.
\<close>

datatype event =
    SetState UploadState
  | SetProgress "UploadProgress option"
  | InitCall nat
  | StatusCall string
  | ChunkCall string nat
  | CompleteCall string nat

text \<open>
  The hook's React state, the value stored in \<^verbatim>\<open>sessionStorage\<close> under the key
  \<^verbatim>\<open>activeRecordingId\<close>, and the events so far.
\<close>

record hook =
  state :: UploadState
  progress :: "UploadProgress option"
  error :: "string option"
  recordingId :: "string option"
  playbackUrl :: "string option"
  sessionStorage :: "string option"
  trace :: "event list"

definition log :: "event \<Rightarrow> hook \<Rightarrow> hook" where
  "log e h = h\<lparr>trace := trace h @ [e]\<rparr>"

definition setState :: "UploadState \<Rightarrow> hook \<Rightarrow> hook" where
  "setState s h = log (SetState s) (h\<lparr>state := s\<rparr>)"

definition setProgress :: "UploadProgress option \<Rightarrow> hook \<Rightarrow> hook" where
  "setProgress p h = log (SetProgress p) (h\<lparr>progress := p\<rparr>)"

definition saveRecordingId :: "string \<Rightarrow> hook \<Rightarrow> hook" where
  "saveRecordingId rid h = h\<lparr>sessionStorage := Some rid\<rparr>"

definition clearRecordingId :: "hook \<Rightarrow> hook" where
  "clearRecordingId h = h\<lparr>sessionStorage := None\<rparr>"

text \<open>
  A truthy string: \<^verbatim>\<open>if (stored)\<close>, \<^verbatim>\<open>if (completeResult.playbackUrl)\<close>. A missing
  value and the empty string are falsy.
\<close>

definition truthy :: "string option \<Rightarrow> bool" where
  "truthy v = (case v of None \<Rightarrow> False | Some s \<Rightarrow> s \<noteq> [])"

text \<open>
  Mounting the hook: the identity is restored from storage, and a restored identity
  puts the session in \<open>Paused\<close>.
\<close>

definition useResumableUpload :: "string option \<Rightarrow> hook" where
  "useResumableUpload stored =
     (let rid = (if truthy stored then stored else None)
      in \<lparr>state = (if truthy rid then Paused else Idle), progress = None, error = None,
          recordingId = rid, playbackUrl = None, sessionStorage = stored, trace = []\<rparr>)"

text \<open>
  The loop of \<^verbatim>\<open>uploadChunks\<close>:
  \<^verbatim>\<open>
  for (let i = startFromChunk; i < chunks.length; i++) {
    const chunk = chunks[i];
    const result = await uploadChunk(recordingId, chunk, i, chunkSize, totalSize, accessToken);
    const uploadedBytes = result.uploadedBytes;
    const progressData = { uploadedBytes, totalBytes: totalSize,
                           percentage: (uploadedBytes / totalSize) * 100 };
    setProgress(progressData);
    options.onProgress?.(progressData);
    if (result.done) { break; }
  }
  \<close>
  An error thrown by the transport leaves the loop and the function.
\<close>

function uploadChunks_loop ::
  "backend \<Rightarrow> (UploadProgress \<Rightarrow> hook \<Rightarrow> hook) option \<Rightarrow> string \<Rightarrow> blob list \<Rightarrow> nat \<Rightarrow> nat
     \<Rightarrow> string \<Rightarrow> nat \<Rightarrow> hook \<Rightarrow> (error + unit) \<times> hook"
where
  "uploadChunks_loop be onProgress rid chunks chunkSize totalSize accessToken i h =
     (if i < length chunks then
        (case uploadChunkFn be rid (chunks ! i) i chunkSize totalSize accessToken of
           Inl e \<Rightarrow> (Inl e, log (ChunkCall rid i) h)
         | Inr result \<Rightarrow>
             (let progressData = \<lparr>uploadedBytes = ack_uploadedBytes result, totalBytes = totalSize,
                     percentage = real (ack_uploadedBytes result) / real totalSize * 100\<rparr>;
                  h1 = setProgress (Some progressData) (log (ChunkCall rid i) h);
                  h2 = (case onProgress of None \<Rightarrow> h1 | Some f \<Rightarrow> f progressData h1)
              in if ack_done result then (Inr (), h2)
                 else uploadChunks_loop be onProgress rid chunks chunkSize totalSize accessToken (Suc i) h2))
      else (Inr (), h))"
  by pat_completeness auto
termination
  by (relation "measure (\<lambda>(be, onProgress, rid, chunks, chunkSize, totalSize, accessToken, i, h).
        length chunks - i)") auto

text \<open>
  \<^verbatim>\<open>uploadChunks(blob, recordingId, chunkSize, startFromChunk, accessToken, options)\<close>
  slices the blob, then walks the chunks from \<open>startFromChunk\<close>. \<open>None\<close> is "never
  returns" (the slicer does not terminate). A start index of \<^verbatim>\<open>Infinity\<close> is not below
  the number of chunks, so the loop body does not run.
\<close>

definition uploadChunks ::
  "backend \<Rightarrow> blob \<Rightarrow> string \<Rightarrow> nat \<Rightarrow> enat \<Rightarrow> string \<Rightarrow> (UploadProgress \<Rightarrow> hook \<Rightarrow> hook) option
     \<Rightarrow> hook \<Rightarrow> ((error + unit) \<times> hook) option"
where
  "uploadChunks be blob rid chunkSize startFromChunk accessToken onProgress h =
     (case sliceBlobIntoChunks blob chunkSize of
        None \<Rightarrow> None
      | Some chunks \<Rightarrow>
          Some (case startFromChunk of
                  enat k \<Rightarrow> uploadChunks_loop be onProgress rid chunks chunkSize (length blob) accessToken k h
                | \<infinity> \<Rightarrow> (Inr (), h)))"

text \<open>
  The \<^verbatim>\<open>onProgress\<close> option that \<^verbatim>\<open>upload\<close> and \<^verbatim>\<open>resume\<close> pass to the walk sets the
  progress again and hands it to the caller's own callback, which is outside the
  session.
\<close>

definition progress_callback :: "UploadProgress \<Rightarrow> hook \<Rightarrow> hook" where
  "progress_callback progressData h = setProgress (Some progressData) h"

text \<open>
  The last steps of \<^verbatim>\<open>upload\<close> and of \<^verbatim>\<open>resume\<close> after the walk:
  \<^verbatim>\<open>
  setState("completing");
  const completeResult = await completeVideoUpload({ recordingId, size: blob.size, accessToken });
  if (completeResult.playbackUrl) { setPlaybackUrl(completeResult.playbackUrl); }
  setState("completed");
  clearRecordingId();
  return { recordingId: completeResult.recordingId, playbackUrl: completeResult.playbackUrl };
  \<close>
\<close>

definition complete_and_clear ::
  "backend \<Rightarrow> string \<Rightarrow> nat \<Rightarrow> hook \<Rightarrow> (error + string \<times> string option) \<times> hook"
where
  "complete_and_clear be rid sz h =
     (let h1 = log (CompleteCall rid sz) (setState Completing h)
      in case completeVideoUpload be rid sz of
           Inl e \<Rightarrow> (Inl e, h1)
         | Inr completeResult \<Rightarrow>
             (let h2 = (if truthy (complete_playbackUrl completeResult)
                        then h1\<lparr>playbackUrl := complete_playbackUrl completeResult\<rparr> else h1);
                  h3 = clearRecordingId (setState Completed h2)
              in (Inr (complete_recordingId completeResult, complete_playbackUrl completeResult), h3)))"

text \<open>
  The \<^verbatim>\<open>catch\<close> block of \<^verbatim>\<open>upload\<close> and \<^verbatim>\<open>resume\<close>:
  \<^verbatim>\<open>setError(error.message); setState("error"); throw error;\<close>
  The stored identity is not touched.
\<close>

definition catch_error :: "error \<Rightarrow> hook \<Rightarrow> hook" where
  "catch_error e h = setState Error (h\<lparr>error := Some e\<rparr>)"

text \<open>The body of the \<^verbatim>\<open>try\<close> block of \<^verbatim>\<open>upload\<close>.\<close>

definition upload_body ::
  "backend \<Rightarrow> blob \<Rightarrow> hook \<Rightarrow> ((error + string \<times> string option) \<times> hook) option"
where
  "upload_body be blob h =
     (case getAccessToken be of
        Inl e \<Rightarrow> Some (Inl e, h)
      | Inr accessToken \<Rightarrow>
          (let h1 = log (InitCall (length blob)) (setState Initializing h)
           in case initResumableUpload be (length blob) of
                Inl e \<Rightarrow> Some (Inl e, h1)
              | Inr initResult \<Rightarrow>
                  (let rid = init_recordingId initResult;
                       h2 = saveRecordingId rid (h1\<lparr>recordingId := Some rid\<rparr>);
                       h3 = setState Uploading h2
                   in case uploadChunks be blob rid (init_chunkSize initResult) 0 accessToken
                             (Some progress_callback) h3 of
                        None \<Rightarrow> None
                      | Some (Inl e, h4) \<Rightarrow> Some (Inl e, h4)
                      | Some (Inr u, h4) \<Rightarrow> Some (complete_and_clear be rid (length blob) h4))))"

text \<open>
  \<^verbatim>\<open>upload(blob, options)\<close>. The authentication check is before the \<^verbatim>\<open>try\<close>, so
  its error changes no state.
\<close>

definition upload ::
  "backend \<Rightarrow> blob \<Rightarrow> hook \<Rightarrow> ((error + string \<times> string option) \<times> hook) option"
where
  "upload be blob h =
     (if \<not> isAuthenticated be then Some (Inl ''User must be authenticated to upload'', h)
      else (let h0 = (setProgress None (h\<lparr>error := None\<rparr>))\<lparr>recordingId := None, playbackUrl := None\<rparr>
            in case upload_body be blob h0 of
                 None \<Rightarrow> None
               | Some (Inl e, h1) \<Rightarrow> Some (Inl e, catch_error e h1)
               | Some (Inr r, h1) \<Rightarrow> Some (Inr r, h1)))"

text \<open>
  The body of the \<^verbatim>\<open>try\<close> block of \<^verbatim>\<open>resume\<close>:
  \<^verbatim>\<open>
  const status = await getUploadStatus({ recordingId, accessToken });
  if (status.uploadedBytes >= status.fileSize) {
    setState("completed");
    setProgress({ uploadedBytes: status.fileSize, totalBytes: status.fileSize, percentage: 100 });
    const completeResult = await completeVideoUpload({ recordingId, size: status.fileSize, accessToken });
    if (completeResult.playbackUrl) { setPlaybackUrl(completeResult.playbackUrl); }
    return { recordingId, playbackUrl: completeResult.playbackUrl };
  }
  const startFromChunk = calculateStartingChunkIndex(status.uploadedBytes, status.chunkSize);
  setState("uploading");
  await uploadChunks(blob, recordingId, status.chunkSize, startFromChunk, accessToken, ...);
  ...
  \<close>
\<close>

definition resume_body ::
  "backend \<Rightarrow> string \<Rightarrow> blob \<Rightarrow> hook \<Rightarrow> ((error + string \<times> string option) \<times> hook) option"
where
  "resume_body be rid blob h =
     (case getAccessToken be of
        Inl e \<Rightarrow> Some (Inl e, h)
      | Inr accessToken \<Rightarrow>
          (let h1 = log (StatusCall rid) (setState Initializing h)
           in case getUploadStatus be rid of
                Inl e \<Rightarrow> Some (Inl e, h1)
              | Inr status \<Rightarrow>
                  if status_fileSize status \<le> status_uploadedBytes status then
                    (let h2 = setProgress
                                (Some \<lparr>uploadedBytes = status_fileSize status,
                                       totalBytes = status_fileSize status, percentage = 100\<rparr>)
                                (setState Completed h1);
                         h3 = log (CompleteCall rid (status_fileSize status)) h2
                     in case completeVideoUpload be rid (status_fileSize status) of
                          Inl e \<Rightarrow> Some (Inl e, h3)
                        | Inr completeResult \<Rightarrow>
                            Some (Inr (rid, complete_playbackUrl completeResult),
                                  (if truthy (complete_playbackUrl completeResult)
                                   then h3\<lparr>playbackUrl := complete_playbackUrl completeResult\<rparr>
                                   else h3)))
                  else
                    (let startFromChunk = calculateStartingChunkIndex
                                            (status_uploadedBytes status) (status_chunkSize status);
                         h2 = setState Uploading h1
                     in case uploadChunks be blob rid (status_chunkSize status) startFromChunk
                               accessToken (Some progress_callback) h2 of
                          None \<Rightarrow> None
                        | Some (Inl e, h3) \<Rightarrow> Some (Inl e, h3)
                        | Some (Inr u, h3) \<Rightarrow> Some (complete_and_clear be rid (length blob) h3))))"

text \<open>\<^verbatim>\<open>resume(recordingId, blob, options)\<close>.\<close>

definition resume ::
  "backend \<Rightarrow> string \<Rightarrow> blob \<Rightarrow> hook \<Rightarrow> ((error + string \<times> string option) \<times> hook) option"
where
  "resume be rid blob h =
     (if \<not> isAuthenticated be then Some (Inl ''User must be authenticated to resume upload'', h)
      else (let h0 = h\<lparr>error := None, recordingId := Some rid\<rparr>
            in case resume_body be rid blob h0 of
                 None \<Rightarrow> None
               | Some (Inl e, h1) \<Rightarrow> Some (Inl e, catch_error e h1)
               | Some (Inr r, h1) \<Rightarrow> Some (Inr r, h1)))"

text \<open>
  \<^verbatim>\<open>reset()\<close>:
  \<^verbatim>\<open>setState("idle"); setProgress(null); setError(null); setRecordingId(null);
  setPlaybackUrl(null); clearRecordingId();\<close>
\<close>

definition reset :: "hook \<Rightarrow> hook" where
  "reset h =
     clearRecordingId
       ((setProgress None (setState Idle h))\<lparr>error := None, recordingId := None, playbackUrl := None\<rparr>)"

section \<open>The dual upload session (\<^verbatim>\<open>useDualUpload\<close>)\<close>

datatype DualUploadState =
  Dual_Idle | Dual_Initializing | Dual_Uploading | Dual_Completing | Dual_Completed | Dual_Error

record DualUploadProgress =
  screen :: UploadProgress
  webcam :: UploadProgress

record WebcamPosition =
  pos_x :: real
  pos_y :: real
  pos_width :: real
  pos_height :: real

text \<open>\<^verbatim>\<open>webcamPositionToApiFormat\<close>: the corner of the webcam overlay as a code.\<close>

definition webcamPositionToApiFormat :: "WebcamPosition \<Rightarrow> nat" where
  "webcamPositionToApiFormat position =
     (if pos_x position < 50 \<and> pos_y position < 50 then 0
      else if pos_x position \<ge> 50 \<and> pos_y position < 50 then 25
      else if pos_x position < 50 \<and> pos_y position \<ge> 50 then 50
      else 100)"

record DualOptions =
  duration :: real
  webcamPosition :: "WebcamPosition option"

record DualCompleteResult =
  dual_complete_recordingId :: string
  dual_complete_playbackUrl :: "string option"
  dual_complete_fileSize :: nat

text \<open>
  The environment of one call of the dual \<^verbatim>\<open>upload\<close>: the outcome of each backend
  call as a function of its arguments. The two transports are the \<open>uploadFn\<close> arguments
  of \<^verbatim>\<open>uploadStreamChunks\<close>, called as
  \<^verbatim>\<open>uploadFn(recordingId, chunk, i, chunkSize, totalSize)\<close>.
\<close>

record dual_backend =
  initDualUpload :: "nat \<Rightarrow> nat \<Rightarrow> nat \<Rightarrow> real \<Rightarrow> error + InitResult"
  uploadScreenChunkFn :: "string \<Rightarrow> blob \<Rightarrow> nat \<Rightarrow> nat \<Rightarrow> nat \<Rightarrow> error + ChunkUploadResult"
  uploadWebcamChunkFn :: "string \<Rightarrow> blob \<Rightarrow> nat \<Rightarrow> nat \<Rightarrow> nat \<Rightarrow> error + ChunkUploadResult"
  completeDualUpload :: "string \<Rightarrow> error + DualCompleteResult"

datatype stream = Screen | Webcam

datatype dual_event =
    DualSetState DualUploadState
  | DualSetProgress "DualUploadProgress option"
  | DualInitCall nat nat
  | StreamChunkCall stream string nat
  | DualCompleteCall string

record dual_hook =
  dual_state :: DualUploadState
  dual_progress :: "DualUploadProgress option"
  dual_error :: "string option"
  dual_recordingId :: "string option"
  dual_playbackUrl :: "string option"
  dual_trace :: "dual_event list"

definition dual_log :: "dual_event \<Rightarrow> dual_hook \<Rightarrow> dual_hook" where
  "dual_log e d = d\<lparr>dual_trace := dual_trace d @ [e]\<rparr>"

definition dual_setState :: "DualUploadState \<Rightarrow> dual_hook \<Rightarrow> dual_hook" where
  "dual_setState s d = dual_log (DualSetState s) (d\<lparr>dual_state := s\<rparr>)"

definition dual_setProgress :: "DualUploadProgress option \<Rightarrow> dual_hook \<Rightarrow> dual_hook" where
  "dual_setProgress p d = dual_log (DualSetProgress p) (d\<lparr>dual_progress := p\<rparr>)"

definition useDualUpload :: dual_hook where
  "useDualUpload =
     \<lparr>dual_state = Dual_Idle, dual_progress = None, dual_error = None,
      dual_recordingId = None, dual_playbackUrl = None, dual_trace = []\<rparr>"

text \<open>
  What one run of \<^verbatim>\<open>uploadStreamChunks\<close> does, in order: for each chunk it sends,
  either the acknowledgment arrives and the progress callback is called with the
  progress computed from it, or the transport throws and the run ends rejected.
\<close>

datatype walk_event = Acked nat UploadProgress | Threw nat error

text \<open>
  The loop of \<^verbatim>\<open>uploadStreamChunks\<close>:
  \<^verbatim>\<open>
  for (let i = 0; i < chunks.length; i++) {
    const chunk = chunks[i];
    const result = await uploadFn(recordingId, chunk, i, chunkSize, totalSize);
    const progressData = { uploadedBytes: result.uploadedBytes, totalBytes: totalSize,
                           percentage: (result.uploadedBytes / totalSize) * 100 };
    onProgress?.(progressData);
    if (result.done) { break; }
  }
  \<close>
\<close>

function uploadStreamChunks_loop ::
  "(string \<Rightarrow> blob \<Rightarrow> nat \<Rightarrow> nat \<Rightarrow> nat \<Rightarrow> error + ChunkUploadResult) \<Rightarrow> string \<Rightarrow> blob list \<Rightarrow> nat \<Rightarrow> nat
     \<Rightarrow> nat \<Rightarrow> walk_event list"
where
  "uploadStreamChunks_loop uploadFn rid chunks chunkSize totalSize i =
     (if i < length chunks then
        (case uploadFn rid (chunks ! i) i chunkSize totalSize of
           Inl e \<Rightarrow> [Threw i e]
         | Inr result \<Rightarrow>
             Acked i \<lparr>uploadedBytes = ack_uploadedBytes result, totalBytes = totalSize,
                      percentage = real (ack_uploadedBytes result) / real totalSize * 100\<rparr>
               # (if ack_done result then []
                  else uploadStreamChunks_loop uploadFn rid chunks chunkSize totalSize (Suc i)))
      else [])"
  by pat_completeness auto
termination
  by (relation "measure (\<lambda>(uploadFn, rid, chunks, chunkSize, totalSize, i). length chunks - i)") auto

definition uploadStreamChunks ::
  "blob \<Rightarrow> string \<Rightarrow> nat \<Rightarrow> (string \<Rightarrow> blob \<Rightarrow> nat \<Rightarrow> nat \<Rightarrow> nat \<Rightarrow> error + ChunkUploadResult)
     \<Rightarrow> walk_event list option"
where
  "uploadStreamChunks blob rid chunkSize uploadFn =
     (case sliceBlobIntoChunks blob chunkSize of
        None \<Rightarrow> None
      | Some chunks \<Rightarrow> Some (uploadStreamChunks_loop uploadFn rid chunks chunkSize (length blob) 0))"

text \<open>
  \<^verbatim>\<open>Promise.all\<close> runs the two walks concurrently: between two awaits of one walk the
  other may advance by any number of chunks. A schedule says, at each point where both
  walks still have a chunk outstanding, which of them receives its response first
  (\<open>True\<close> for the screen stream); when the schedule is used up the screen stream goes
  first. Every order in which the responses of the two streams can arrive is the
  interleaving of some schedule.
\<close>

fun interleave :: "bool list \<Rightarrow> walk_event list \<Rightarrow> walk_event list \<Rightarrow> (stream \<times> walk_event) list" where
  "interleave sched [] ys = map (Pair Webcam) ys"
| "interleave sched (x # xs) [] = map (Pair Screen) (x # xs)"
| "interleave [] (x # xs) (y # ys) = (Screen, x) # interleave [] xs (y # ys)"
| "interleave (True # sched) (x # xs) (y # ys) = (Screen, x) # interleave sched xs (y # ys)"
| "interleave (False # sched) (x # xs) (y # ys) = (Webcam, y) # interleave sched (x # xs) ys"

text \<open>
  The progress callbacks that \<^verbatim>\<open>upload\<close> passes to the two walks:
  \<^verbatim>\<open>
  setProgress((prev) => {
    if (!prev) return null;
    const newProgress = { ...prev, screen: screenProgress };
    return newProgress;
  });
  \<close>
\<close>

definition stream_progress :: "stream \<Rightarrow> UploadProgress \<Rightarrow> dual_hook \<Rightarrow> dual_hook" where
  "stream_progress s p d =
     dual_setProgress
       (case dual_progress d of
          None \<Rightarrow> None
        | Some prev \<Rightarrow> Some (case s of Screen \<Rightarrow> prev\<lparr>screen := p\<rparr> | Webcam \<Rightarrow> prev\<lparr>webcam := p\<rparr>))
       d"

text \<open>
  The \<^verbatim>\<open>catch\<close> block of the dual \<^verbatim>\<open>upload\<close>:
  \<^verbatim>\<open>setError(error.message); setState("error"); opts.onError?.(error); throw error;\<close>
\<close>

definition dual_catch :: "error \<Rightarrow> dual_hook \<Rightarrow> dual_hook" where
  "dual_catch e d = dual_setState Dual_Error (d\<lparr>dual_error := Some e\<rparr>)"

text \<open>
  The effect of the interleaved events on the session. \<^verbatim>\<open>Promise.all\<close> rejects with
  the first error thrown by either walk, and \<^verbatim>\<open>upload\<close> goes to its \<^verbatim>\<open>catch\<close> block
  at once; the other walk is not cancelled and its later events still happen. A second
  rejection is ignored. The result is the error \<^verbatim>\<open>Promise.all\<close> rejected with, if any.
\<close>

fun run_streams ::
  "string \<Rightarrow> (stream \<times> walk_event) list \<Rightarrow> error option \<Rightarrow> dual_hook \<Rightarrow> error option \<times> dual_hook"
where
  "run_streams rid [] rejected d = (rejected, d)"
| "run_streams rid ((s, Acked i p) # evs) rejected d =
     run_streams rid evs rejected (stream_progress s p (dual_log (StreamChunkCall s rid i) d))"
| "run_streams rid ((s, Threw i e) # evs) rejected d =
     (case rejected of
        None \<Rightarrow> run_streams rid evs (Some e) (dual_catch e (dual_log (StreamChunkCall s rid i) d))
      | Some e0 \<Rightarrow> run_streams rid evs rejected (dual_log (StreamChunkCall s rid i) d))"

text \<open>
  The body of the \<^verbatim>\<open>try\<close> block of the dual \<^verbatim>\<open>upload\<close> from the call of
  \<^verbatim>\<open>initDualUpload\<close> on. The result is \<open>None\<close> when a slicer does not terminate.
  An error that reaches the \<^verbatim>\<open>catch\<close> block has been handled by \<open>dual_catch\<close>.
\<close>

definition dual_upload_body ::
  "dual_backend \<Rightarrow> bool list \<Rightarrow> blob \<Rightarrow> blob \<Rightarrow> DualOptions \<Rightarrow> WebcamPosition \<Rightarrow> dual_hook
     \<Rightarrow> ((error + string \<times> string option \<times> nat) \<times> dual_hook) option"
where
  "dual_upload_body be sched screenBlob webcamBlob opts position d =
     (let d1 = dual_log (DualInitCall (length screenBlob) (length webcamBlob))
                 (dual_setState Dual_Initializing d)
      in case initDualUpload be (length screenBlob) (length webcamBlob)
                (webcamPositionToApiFormat position) (duration opts) of
           Inl e \<Rightarrow> Some (Inl e, dual_catch e d1)
         | Inr initResult \<Rightarrow>
             (let rid = init_recordingId initResult;
                  d2 = dual_setState Dual_Uploading (d1\<lparr>dual_recordingId := Some rid\<rparr>);
                  d3 = dual_setProgress
                         (Some \<lparr>screen = \<lparr>uploadedBytes = 0, totalBytes = length screenBlob, percentage = 0\<rparr>,
                                webcam = \<lparr>uploadedBytes = 0, totalBytes = length webcamBlob, percentage = 0\<rparr>\<rparr>)
                         d2
              in case uploadStreamChunks screenBlob rid (init_chunkSize initResult) (uploadScreenChunkFn be) of
                   None \<Rightarrow> None
                 | Some screenWalk \<Rightarrow>
                     (case uploadStreamChunks webcamBlob rid (init_chunkSize initResult) (uploadWebcamChunkFn be) of
                        None \<Rightarrow> None
                      | Some webcamWalk \<Rightarrow>
                          (case run_streams rid (interleave sched screenWalk webcamWalk) None d3 of
                             (Some e, d4) \<Rightarrow> Some (Inl e, d4)
                           | (None, d4) \<Rightarrow>
                               (let d5 = dual_log (DualCompleteCall rid) (dual_setState Dual_Completing d4)
                                in case completeDualUpload be rid of
                                     Inl e \<Rightarrow> Some (Inl e, dual_catch e d5)
                                   | Inr completeResult \<Rightarrow>
                                       (let d6 = (if truthy (dual_complete_playbackUrl completeResult)
                                                  then d5\<lparr>dual_playbackUrl := dual_complete_playbackUrl completeResult\<rparr>
                                                  else d5)
                                        in Some (Inr (dual_complete_recordingId completeResult,
                                                      dual_complete_playbackUrl completeResult,
                                                      dual_complete_fileSize completeResult),
                                                 dual_setState Dual_Completed d6)))))))"

text \<open>
  The dual \<^verbatim>\<open>upload(screenBlob, webcamBlob, options)\<close>. The two checks of the options
  are before the \<^verbatim>\<open>try\<close>, so their errors change no state.
\<close>

definition dual_upload ::
  "dual_backend \<Rightarrow> bool list \<Rightarrow> blob \<Rightarrow> blob \<Rightarrow> DualOptions option \<Rightarrow> dual_hook
     \<Rightarrow> ((error + string \<times> string option \<times> nat) \<times> dual_hook) option"
where
  "dual_upload be sched screenBlob webcamBlob options d =
     (case options of
        None \<Rightarrow> Some (Inl ''duration is required'', d)
      | Some opts \<Rightarrow>
          if duration opts = 0 then Some (Inl ''duration is required'', d)
          else (case webcamPosition opts of
                  None \<Rightarrow> Some (Inl ''webcamPosition is required'', d)
                | Some position \<Rightarrow>
                    dual_upload_body be sched screenBlob webcamBlob opts position
                      ((dual_setProgress None (d\<lparr>dual_error := None\<rparr>))
                         \<lparr>dual_recordingId := None, dual_playbackUrl := None\<rparr>)))"

definition dual_reset :: "dual_hook \<Rightarrow> dual_hook" where
  "dual_reset d =
     (dual_setProgress None (dual_setState Dual_Idle d))
       \<lparr>dual_error := None, dual_recordingId := None, dual_playbackUrl := None\<rparr>"

section \<open>The upload manager (\<^verbatim>\<open>UploadManager\<close>)\<close>

text \<open>
  \<^verbatim>\<open>UploadStatus = "uploading" | "completed" | "error" | "cancelled"\<close>.
\<close>

datatype UploadStatus = Um_Uploading | Um_Completed | Um_Error | Um_Cancelled

text \<open>
  The \<^verbatim>\<open>UploadProgress\<close> of the upload manager:
  \<^verbatim>\<open>{ recordingId, status, uploadedBytes, totalBytes, progressPercent, errorMessage }\<close>.
  The percentage is the exact quotient; it is \<open>None\<close> when the payload is empty, where
  the source divides by zero and gets \<^verbatim>\<open>NaN\<close> or \<^verbatim>\<open>Infinity\<close>.
\<close>

record ManagerProgress =
  mp_recordingId :: string
  mp_status :: UploadStatus
  mp_uploadedBytes :: nat
  mp_totalBytes :: nat
  mp_progressPercent :: "real option"
  mp_errorMessage :: "string option"


text \<open>
  What the chunk walk of the manager does that others can observe, in order: the status
  request, each \<^verbatim>\<open>PUT\<close> request (chunk index and attempt), each acknowledgment received
  (chunk index, the last byte \<^verbatim>\<open>endByte\<close> of the range sent, and the body of the
  response), each progress handed to \<^verbatim>\<open>callbacks.onProgress\<close>, each delay slept, each
  completion request, and the calls of \<^verbatim>\<open>callbacks.onComplete\<close> and
  \<^verbatim>\<open>callbacks.onError\<close>.
\<close>

datatype um_event =
    UmStatusCall string
  | UmPut nat nat
  | UmAcked nat nat ChunkUploadResult
  | UmProgress ManagerProgress
  | UmSleep nat
  | UmCompleteCall string nat
  | UmOnComplete "string option"
  | UmOnError error

text \<open>
  The fields of the manager's \<^verbatim>\<open>UploadState\<close> that the chunk walk writes, and the
  events so far. The identity, the blob and the chunk size of the state are not written
  by the walk and are arguments of the functions below.
\<close>

record manager =
  um_status :: UploadStatus
  um_uploadedBytes :: nat
  um_errorMessage :: "string option"
  um_trace :: "um_event list"


definition um_log :: "um_event \<Rightarrow> manager \<Rightarrow> manager" where
  "um_log e s = s\<lparr>um_trace := um_trace s @ [e]\<rparr>"













section \<open>Observing a session\<close>

text \<open>The events of a session since an earlier moment of it.\<close>

definition new_events :: "hook \<Rightarrow> hook \<Rightarrow> event list" where
  "new_events h h' = drop (length (trace h)) (trace h')"

text \<open>The indices of the chunks handed to the transport, in order.\<close>

fun sent_chunks :: "event list \<Rightarrow> nat list" where
  "sent_chunks [] = []"
| "sent_chunks (ChunkCall rid i # es) = i # sent_chunks es"
| "sent_chunks (e # es) = sent_chunks es"


fun state_changes :: "event list \<Rightarrow> UploadState list" where
  "state_changes [] = []"
| "state_changes (SetState s # es) = s # state_changes es"
| "state_changes (e # es) = state_changes es"

text \<open>The calls of the completion endpoint, in order.\<close>

fun complete_calls :: "event list \<Rightarrow> (string \<times> nat) list" where
  "complete_calls [] = []"
| "complete_calls (CompleteCall rid n # es) = (rid, n) # complete_calls es"
| "complete_calls (e # es) = complete_calls es"

text \<open>The progress that the walk computes from an acknowledgment.\<close>

definition progress_of :: "ChunkUploadResult \<Rightarrow> nat \<Rightarrow> UploadProgress" where
  "progress_of result totalSize =
     \<lparr>uploadedBytes = ack_uploadedBytes result, totalBytes = totalSize,
      percentage = real (ack_uploadedBytes result) / real totalSize * 100\<rparr>"

text \<open>
  The events of one iteration of the walk of \<^verbatim>\<open>upload\<close> and \<^verbatim>\<open>resume\<close>: the
  transport is called, and when it returns an acknowledgment the progress is set by the
  walk and again by the progress callback.
\<close>

definition chunk_events ::
  "backend \<Rightarrow> string \<Rightarrow> blob list \<Rightarrow> nat \<Rightarrow> nat \<Rightarrow> string \<Rightarrow> nat \<Rightarrow> event list" where
  "chunk_events be rid chunks c tot tok k =
     ChunkCall rid k #
       (case uploadChunkFn be rid (chunks ! k) k c tot tok of
          Inl e \<Rightarrow> []
        | Inr res \<Rightarrow> [SetProgress (Some (progress_of res tot)), SetProgress (Some (progress_of res tot))])"


text \<open>An outcome of the transport that is an acknowledgment, without and with \<open>done\<close>.\<close>

definition acked_not_done :: "error + ChunkUploadResult \<Rightarrow> bool" where
  "acked_not_done r = (case r of Inl e \<Rightarrow> False | Inr res \<Rightarrow> \<not> ack_done res)"

definition acked_done :: "error + ChunkUploadResult \<Rightarrow> bool" where
  "acked_done r = (case r of Inl e \<Rightarrow> False | Inr res \<Rightarrow> ack_done res)"

text \<open>The same observations for the dual session and for the walk of one stream.\<close>

definition dual_new_events :: "dual_hook \<Rightarrow> dual_hook \<Rightarrow> dual_event list" where
  "dual_new_events d d' = drop (length (dual_trace d)) (dual_trace d')"

fun stream_calls :: "stream \<Rightarrow> dual_event list \<Rightarrow> nat list" where
  "stream_calls s [] = []"
| "stream_calls s (StreamChunkCall s' rid i # es) =
     (if s' = s then i # stream_calls s es else stream_calls s es)"
| "stream_calls s (e # es) = stream_calls s es"

fun dual_state_changes :: "dual_event list \<Rightarrow> DualUploadState list" where
  "dual_state_changes [] = []"
| "dual_state_changes (DualSetState s # es) = s # dual_state_changes es"
| "dual_state_changes (e # es) = dual_state_changes es"

fun dual_complete_calls :: "dual_event list \<Rightarrow> string list" where
  "dual_complete_calls [] = []"
| "dual_complete_calls (DualCompleteCall rid # es) = rid # dual_complete_calls es"
| "dual_complete_calls (e # es) = dual_complete_calls es"

fun walk_index :: "walk_event \<Rightarrow> nat" where
  "walk_index (Acked i p) = i"
| "walk_index (Threw i e) = i"

fun is_threw :: "walk_event \<Rightarrow> bool" where
  "is_threw (Acked i p) = False"
| "is_threw (Threw i e) = True"

text \<open>The event of the walk of one stream at chunk \<open>k\<close>.\<close>

definition stream_event ::
  "(string \<Rightarrow> blob \<Rightarrow> nat \<Rightarrow> nat \<Rightarrow> nat \<Rightarrow> error + ChunkUploadResult) \<Rightarrow> string \<Rightarrow> blob list \<Rightarrow> nat \<Rightarrow> nat
     \<Rightarrow> nat \<Rightarrow> walk_event" where
  "stream_event uploadFn rid chunks c tot k =
     (case uploadFn rid (chunks ! k) k c tot of
        Inl e \<Rightarrow> Threw k e
      | Inr res \<Rightarrow> Acked k (progress_of res tot))"

text \<open>The events of one stream within an interleaving are the events of its walk.\<close>

definition of_stream :: "stream \<Rightarrow> (stream \<times> walk_event) list \<Rightarrow> walk_event list" where
  "of_stream s evs = map snd (filter (\<lambda>p. fst p = s) evs)"

text \<open>
  A walk of one stream has ended without an error when the chunks it handed to the
  transport are \<open>0, 1, \<dots>\<close> without a gap, every one of them was acknowledged, all
  but the last of them without \<open>done\<close>, and either they are all the chunks of the
  payload or the last of them was acknowledged with \<open>done\<close>. In the second case the
  later chunks of the payload were not sent.
\<close>

definition is_acked :: "error + ChunkUploadResult \<Rightarrow> bool" where
  "is_acked r = (case r of Inl e \<Rightarrow> False | Inr res \<Rightarrow> True)"

definition walk_ended ::
  "(string \<Rightarrow> blob \<Rightarrow> nat \<Rightarrow> nat \<Rightarrow> nat \<Rightarrow> error + ChunkUploadResult) \<Rightarrow> string \<Rightarrow> blob \<Rightarrow> nat
     \<Rightarrow> nat list \<Rightarrow> bool" where
  "walk_ended uploadFn rid blob c sent =
     (case sliceBlobIntoChunks blob c of
        None \<Rightarrow> False
      | Some chunks \<Rightarrow>
          sent = [0..<length sent] \<and> length sent \<le> length chunks
        \<and> list_all (\<lambda>k. is_acked (uploadFn rid (chunks ! k) k c (length blob))) sent
        \<and> list_all (\<lambda>k. acked_not_done (uploadFn rid (chunks ! k) k c (length blob))) (butlast sent)
        \<and> (length sent = length chunks
           \<or> (sent \<noteq> [] \<and> acked_done (uploadFn rid (chunks ! last sent) (last sent) c (length blob)))))"

text \<open>The chunk calls of both streams, in the order in which they happen.\<close>

fun all_stream_calls :: "dual_event list \<Rightarrow> (stream \<times> nat) list" where
  "all_stream_calls [] = []"
| "all_stream_calls (StreamChunkCall s rid i # es) = (s, i) # all_stream_calls es"
| "all_stream_calls (e # es) = all_stream_calls es"







section \<open>Concrete scenarios\<close>

text \<open>A payload of seven bytes.\<close>

definition payload7 :: blob where
  "payload7 = [1, 2, 3, 4, 5, 6, 7]"

text \<open>
  A transport whose backend acknowledges every chunk with the cumulative byte count up
  to the end of that chunk, and says \<open>done\<close> with the last byte.
\<close>

definition ack_cumulative :: "string \<Rightarrow> blob \<Rightarrow> nat \<Rightarrow> nat \<Rightarrow> nat \<Rightarrow> string \<Rightarrow> error + ChunkUploadResult" where
  "ack_cumulative rid chunk i c tot tok =
     Inr \<lparr>ack_uploadedBytes = min (i * c + c) tot, ack_done = (tot \<le> i * c + c)\<rparr>"

text \<open>
  A backend in which every call succeeds. Its status endpoint reports \<open>acked\<close>
  acknowledged bytes of a file of seven bytes, and its chunk size is \<open>c\<close>.
\<close>

definition good_backend :: "nat \<Rightarrow> nat \<Rightarrow> backend" where
  "good_backend acked c =
     \<lparr>isAuthenticated = True,
      getAccessToken = Inr ''token'',
      initResumableUpload = (\<lambda>n. Inr \<lparr>init_recordingId = ''rec-1'', init_chunkSize = c\<rparr>),
      getUploadStatus = (\<lambda>rid. Inr \<lparr>status_uploadedBytes = acked, status_chunkSize = c,
                                      status_fileSize = 7\<rparr>),
      uploadChunkFn = ack_cumulative,
      completeVideoUpload = (\<lambda>rid n. Inr \<lparr>complete_recordingId = rid,
                                             complete_playbackUrl = Some ''https://play/rec-1''\<rparr>)\<rparr>"



text \<open>A network on which the first three requests of a chunk fail, each with its own error.\<close>

definition failing_fetch :: "nat \<Rightarrow> error + ChunkUploadResult" where
  "failing_fetch attempt =
     Inl (if attempt = 0 then ''first failure''
          else if attempt = 1 then ''second failure''
          else if attempt = 2 then ''third failure''
          else ''later failure'')"

text \<open>
  Scenario C. A screen recording of five bytes and a webcam recording of three bytes
  are uploaded in chunks of two bytes. The backend acknowledges every chunk of the
  webcam stream. On the screen stream every request for the second chunk fails, so
  \<^verbatim>\<open>uploadScreenChunk\<close> exhausts its retry budget there and throws.
\<close>

definition payload5 :: blob where
  "payload5 = [1, 2, 3, 4, 5]"

definition payload3 :: blob where
  "payload3 = [1, 2, 3]"

definition ack_stream :: "string \<Rightarrow> blob \<Rightarrow> nat \<Rightarrow> nat \<Rightarrow> nat \<Rightarrow> error + ChunkUploadResult" where
  "ack_stream rid chunk i c tot = ack_cumulative rid chunk i c tot []"

definition screen_fails_second :: "string \<Rightarrow> blob \<Rightarrow> nat \<Rightarrow> nat \<Rightarrow> nat \<Rightarrow> error + ChunkUploadResult" where
  "screen_fails_second rid chunk i c tot =
     (if i = 1 then outcome (uploadScreenChunk rid chunk i c tot None None failing_fetch)
      else ack_stream rid chunk i c tot)"

definition scenarioC_backend :: dual_backend where
  "scenarioC_backend =
     \<lparr>initDualUpload = (\<lambda>screenSize webcamSize position dur.
                          Inr \<lparr>init_recordingId = ''rec-2'', init_chunkSize = 2\<rparr>),
      uploadScreenChunkFn = screen_fails_second,
      uploadWebcamChunkFn = ack_stream,
      completeDualUpload = (\<lambda>rid. Inr \<lparr>dual_complete_recordingId = rid,
                                          dual_complete_playbackUrl = Some ''https://play/rec-2'',
                                          dual_complete_fileSize = 8\<rparr>)\<rparr>"

text \<open>The same backend with a screen stream that is acknowledged as well.\<close>

definition good_dual_backend :: dual_backend where
  "good_dual_backend = scenarioC_backend\<lparr>uploadScreenChunkFn := ack_stream\<rparr>"

definition dual_options :: DualOptions where
  "dual_options =
     \<lparr>duration = 5,
      webcamPosition = Some \<lparr>pos_x = 10, pos_y = 10, pos_width = 20, pos_height = 20\<rparr>\<rparr>"






text \<open>
  Scenario C with a screen stream on which nothing fails: \<^verbatim>\<open>uploadScreenChunk\<close>, called
  as the dual session calls it, gets from the backend an acknowledgment that says
  \<open>done\<close> for every chunk, the first one included.
\<close>

definition screen_done_at_once :: "string \<Rightarrow> blob \<Rightarrow> nat \<Rightarrow> nat \<Rightarrow> nat \<Rightarrow> error + ChunkUploadResult" where
  "screen_done_at_once rid chunk i c tot =
     outcome (uploadScreenChunk rid chunk i c tot None None
                (\<lambda>attempt. Inr \<lparr>ack_uploadedBytes = min (i * c + c) tot, ack_done = True\<rparr>))"

definition early_done_dual_backend :: dual_backend where
  "early_done_dual_backend = scenarioC_backend\<lparr>uploadScreenChunkFn := screen_done_at_once\<rparr>"

section \<open>Properties of the chunk slicer\<close>

lemma ceil_div_le_iff: "0 < c \<Longrightarrow> ceil_div S c \<le> k \<longleftrightarrow> S \<le> k * c"
proof -
  assume c: "0 < c"
  have "ceil_div S c \<le> k \<longleftrightarrow> (S + c - 1) div c < Suc k"
    by (simp add: ceil_div_def less_Suc_eq_le)
  also have "\<dots> \<longleftrightarrow> S + c - 1 < Suc k * c"
    using c by (simp only: div_less_iff_less_mult)
  also have "\<dots> \<longleftrightarrow> S \<le> k * c"
    using c by auto
  finally show ?thesis .
qed

lemma ceil_div_gt_iff: "0 < c \<Longrightarrow> k < ceil_div S c \<longleftrightarrow> k * c < S"
  using ceil_div_le_iff [of c S k] by auto

lemma ceil_div_mult: "0 < c \<Longrightarrow> ceil_div (k * c) c = k"
proof (rule antisym)
  assume c: "0 < c"
  show "ceil_div (k * c) c \<le> k" using c by (simp add: ceil_div_le_iff)
  show "k \<le> ceil_div (k * c) c"
    using c ceil_div_gt_iff [of c "ceil_div (k * c) c" "k * c"] by (auto simp: not_less [symmetric])
qed

text \<open>\<open>ceil_div\<close> is the ceiling of the exact quotient.\<close>

lemma ceil_div_real: "0 < b \<Longrightarrow> int (ceil_div a b) = \<lceil>real a / real b\<rceil>"
proof -
  assume b: "0 < b"
  have "real a \<le> real (ceil_div a b * b)"
    using ceil_div_le_iff [OF b, of a "ceil_div a b"] by (simp del: of_nat_mult)
  then have 1: "real a / real b \<le> real (ceil_div a b)"
    using b by (simp add: field_simps)
  have 2: "real (ceil_div a b) - 1 < real a / real b"
  proof (cases "ceil_div a b")
    case 0
    have "0 \<le> real a / real b" by simp
    then show ?thesis using 0 by linarith
  next
    case (Suc k)
    then have "k * b < a" using ceil_div_gt_iff [OF b, of k a] by simp
    then have "real (k * b) < real a" by (simp del: of_nat_mult)
    then have "real k < real a / real b" using b by (simp add: field_simps)
    then show ?thesis using Suc by simp
  qed
  show ?thesis
    using 1 2 by (intro ceiling_unique [symmetric]) auto
qed

lemma slice_loop_at_end: "slice_loop b c (length b) acc = Some acc"
  by (subst slice_loop.simps) simp

lemma slice_loop_closed:
  assumes c: "0 < c"
  shows "k * c \<le> length b \<Longrightarrow>
    slice_loop b c (k * c) acc = Some (acc @ map (nth_chunk b c) [k..<ceil_div (length b) c])"
proof (induction "ceil_div (length b) c - k" arbitrary: k acc rule: less_induct)
  case less
  let ?S = "length b" and ?n = "ceil_div (length b) c"
  show ?case
  proof (cases "k * c < ?S")
    case False
    with less.prems have eq: "k * c = ?S" by simp
    then have "?n = k" using ceil_div_mult [OF c, of k] by simp
    then show ?thesis using eq slice_loop_at_end [of b c acc] by simp
  next
    case True
    then have kn: "k < ?n" using c by (simp add: ceil_div_gt_iff)
    have step: "slice_loop b c (k * c) acc =
        slice_loop b c (min (k * c + c) ?S) (acc @ [nth_chunk b c k])"
      using True by (subst slice_loop.simps) (simp add: nth_chunk_def chunk_start_def chunk_end_def)
    show ?thesis
    proof (cases "Suc k * c \<le> ?S")
      case True
      then have m: "min (k * c + c) ?S = Suc k * c" by simp
      have "slice_loop b c (Suc k * c) (acc @ [nth_chunk b c k]) =
          Some ((acc @ [nth_chunk b c k]) @ map (nth_chunk b c) [Suc k..<?n])"
        using kn True by (intro less.hyps) auto
      then show ?thesis using step m kn by (simp add: upt_conv_Cons)
    next
      case False
      then have m: "min (k * c + c) ?S = ?S" by simp
      have "?n \<le> Suc k" using False c by (simp add: ceil_div_le_iff)
      with kn have "?n = Suc k" by simp
      then show ?thesis using step m slice_loop_at_end [of b c "acc @ [nth_chunk b c k]"] by simp
    qed
  qed
qed

text \<open>For a positive chunk size the slicer returns, and its result has a closed form.\<close>

lemma sliceBlobIntoChunks_closed:
  "0 < c \<Longrightarrow> sliceBlobIntoChunks b c = Some (map (nth_chunk b c) [0..<ceil_div (length b) c])"
  using slice_loop_closed [of c 0 b "[]"] by (simp add: sliceBlobIntoChunks_def)

lemma sliceBlobIntoChunks_empty: "sliceBlobIntoChunks [] c = Some []"
  by (simp add: sliceBlobIntoChunks_def slice_loop.simps)

lemma concat_chunks_upto:
  assumes c: "0 < c"
  shows "k \<le> ceil_div (length b) c \<Longrightarrow>
     concat (map (nth_chunk b c) [0..<k]) = take (k * c) b"
proof (induction k)
  case 0
  then show ?case by simp
next
  case (Suc k)
  then have "k * c < length b" using c by (simp add: ceil_div_gt_iff Suc_le_eq)
  have "nth_chunk b c k = take c (drop (k * c) b)"
    by (simp add: nth_chunk_def blob_slice_def chunk_start_def chunk_end_def min_def)
  moreover have "take (k * c) b @ take c (drop (k * c) b) = take (k * c + c) b"
    by (simp add: take_add)
  ultimately show ?case using Suc by (simp add: add.commute)
qed

lemma concat_chunks:
  assumes c: "0 < c"
  shows "concat (map (nth_chunk b c) [0..<ceil_div (length b) c]) = b"
proof -
  have "length b \<le> ceil_div (length b) c * c"
    using ceil_div_le_iff [OF c, of "length b" "ceil_div (length b) c"] by simp
  then show ?thesis using concat_chunks_upto [OF c, of "ceil_div (length b) c" b] by simp
qed

text \<open>
  Claim C1. For every payload \<open>b\<close> of size \<open>S\<close> and every chunk size \<open>c > 0\<close>, the
  slicer returns, and it returns exactly \<open>ceil(S / c)\<close> chunks. Chunk \<open>i\<close> is the byte
  range \<open>[i * c, min (i * c + c) S)\<close> of the payload and is not empty; the first range
  starts at \<open>0\<close>, each range ends where the next one starts (so the ranges are in
  ascending order of start offset, contiguous and disjoint), and the last range ends at
  \<open>S\<close>. The lengths of the chunks add up to \<open>S\<close>, the chunks put together are the
  payload, and the last chunk has length \<open>S - (ceil(S / c) - 1) * c\<close>.
\<close>

theorem slicer_covers_payload:
  assumes c: "0 < c"
  shows "\<exists>chunks. sliceBlobIntoChunks b c = Some chunks
     \<and> length chunks = ceil_div (length b) c
     \<and> (\<forall>i<length chunks.
            chunks ! i = blob_slice (chunk_start i c) (chunk_end i c (length b)) b
          \<and> length (chunks ! i) = chunk_end i c (length b) - chunk_start i c
          \<and> chunk_start i c < chunk_end i c (length b)
          \<and> (i = 0 \<longrightarrow> chunk_start i c = 0)
          \<and> (Suc i < length chunks \<longrightarrow> chunk_end i c (length b) = chunk_start (Suc i) c)
          \<and> (Suc i = length chunks \<longrightarrow> chunk_end i c (length b) = length b))
     \<and> sum_list (map length chunks) = length b
     \<and> concat chunks = b
     \<and> (chunks \<noteq> [] \<longrightarrow> length (last chunks) = length b - (ceil_div (length b) c - 1) * c)"
proof -
  let ?S = "length b" and ?n = "ceil_div (length b) c"
  let ?chunks = "map (nth_chunk b c) [0..<?n]"
  have sl: "sliceBlobIntoChunks b c = Some ?chunks"
    using c by (rule sliceBlobIntoChunks_closed)
  have cat: "concat ?chunks = b" using c by (rule concat_chunks)
  have upper: "?S \<le> ?n * c"
    using ceil_div_le_iff [OF c, of ?S ?n] by simp
  have inside: "i * c < ?S" if "i < ?n" for i
    using that c by (simp add: ceil_div_gt_iff)
  have len: "length (nth_chunk b c i) = chunk_end i c ?S - chunk_start i c" if "i < ?n" for i
    using inside [OF that] by (simp add: nth_chunk_def blob_slice_def chunk_start_def chunk_end_def)
  have each: "?chunks ! i = blob_slice (chunk_start i c) (chunk_end i c ?S) b
          \<and> length (?chunks ! i) = chunk_end i c ?S - chunk_start i c
          \<and> chunk_start i c < chunk_end i c ?S
          \<and> (i = 0 \<longrightarrow> chunk_start i c = 0)
          \<and> (Suc i < length ?chunks \<longrightarrow> chunk_end i c ?S = chunk_start (Suc i) c)
          \<and> (Suc i = length ?chunks \<longrightarrow> chunk_end i c ?S = ?S)" if i: "i < length ?chunks" for i
  proof -
    have i': "i < ?n" using i by simp
    have 1: "?chunks ! i = blob_slice (chunk_start i c) (chunk_end i c ?S) b"
      using i' by (simp add: nth_chunk_def)
    have 2: "length (?chunks ! i) = chunk_end i c ?S - chunk_start i c"
      using i' len by simp
    have 3: "chunk_start i c < chunk_end i c ?S"
      using inside [OF i'] c by (simp add: chunk_start_def chunk_end_def)
    have 4: "i = 0 \<longrightarrow> chunk_start i c = 0" by (simp add: chunk_start_def)
    have 5: "Suc i < length ?chunks \<longrightarrow> chunk_end i c ?S = chunk_start (Suc i) c"
    proof
      assume "Suc i < length ?chunks"
      then have "Suc i * c < ?S" using inside [of "Suc i"] by simp
      then show "chunk_end i c ?S = chunk_start (Suc i) c"
        by (simp add: chunk_start_def chunk_end_def)
    qed
    have 6: "Suc i = length ?chunks \<longrightarrow> chunk_end i c ?S = ?S"
    proof
      assume "Suc i = length ?chunks"
      then have "?S \<le> Suc i * c" using upper by simp
      then show "chunk_end i c ?S = ?S"
        by (simp add: chunk_start_def chunk_end_def)
    qed
    from 1 2 3 4 5 6 show ?thesis by blast
  qed
  have total: "sum_list (map length ?chunks) = ?S"
    using cat length_concat [of ?chunks] by (simp del: map_map)
  have lastc: "?chunks \<noteq> [] \<longrightarrow> length (last ?chunks) = ?S - (?n - 1) * c"
  proof
    assume ne: "?chunks \<noteq> []"
    then have n: "0 < ?n" by simp
    then have l: "last ?chunks = nth_chunk b c (?n - 1)"
      by (simp add: last_map)
    have "length (nth_chunk b c (?n - 1)) = chunk_end (?n - 1) c ?S - chunk_start (?n - 1) c"
      using n by (intro len) simp
    moreover have "chunk_end (?n - 1) c ?S = ?S"
      using upper n by (cases ?n) (simp_all add: chunk_start_def chunk_end_def)
    ultimately show "length (last ?chunks) = ?S - (?n - 1) * c"
      using l by (simp add: chunk_start_def)
  qed
  have "length ?chunks = ?n" by simp
  with sl each total cat lastc show ?thesis by blast
qed

text \<open>The claim at a payload of seven bytes and chunk size three.\<close>

theorem slicer_covers_payload_witness:
  "0 < (3::nat) \<and>
   (\<exists>chunks. sliceBlobIntoChunks [1, 2, 3, 4, 5, 6, 7] 3 = Some chunks
      \<and> chunks = [[1, 2, 3], [4, 5, 6], [7]]
      \<and> length chunks = ceil_div 7 3
      \<and> sum_list (map length chunks) = 7
      \<and> length (last chunks) = 7 - (ceil_div 7 3 - 1) * 3)"
proof -
  have h: "0 < (3::nat)" by simp
  have ev: "sliceBlobIntoChunks [1, 2, 3, 4, 5, 6, 7] 3 = Some [[1, 2, 3], [4, 5, 6], [7]]"
    by (simp add: sliceBlobIntoChunks_def slice_loop.simps blob_slice_def)
  from slicer_covers_payload [OF h, of "[1, 2, 3, 4, 5, 6, 7]"] ev
  show ?thesis by (simp add: ceil_div_def)
qed

section \<open>Properties of the sequential walk\<close>

lemma trace_log [simp]: "trace (log e h) = trace h @ [e]"
  by (simp add: log_def)

lemma trace_setProgress [simp]: "trace (setProgress p h) = trace h @ [SetProgress p]"
  by (simp add: setProgress_def)

lemma trace_setState [simp]: "trace (setState s h) = trace h @ [SetState s]"
  by (simp add: setState_def)

lemma fields_log [simp]:
  "state (log e h) = state h" "sessionStorage (log e h) = sessionStorage h"
  "error (log e h) = error h" "recordingId (log e h) = recordingId h"
  "playbackUrl (log e h) = playbackUrl h" "progress (log e h) = progress h"
  by (simp_all add: log_def)

lemma fields_setProgress [simp]:
  "state (setProgress p h) = state h" "sessionStorage (setProgress p h) = sessionStorage h"
  "error (setProgress p h) = error h" "recordingId (setProgress p h) = recordingId h"
  "playbackUrl (setProgress p h) = playbackUrl h" "progress (setProgress p h) = p"
  by (simp_all add: setProgress_def)

lemma fields_setState [simp]:
  "state (setState s h) = s" "sessionStorage (setState s h) = sessionStorage h"
  "error (setState s h) = error h" "recordingId (setState s h) = recordingId h"
  "playbackUrl (setState s h) = playbackUrl h" "progress (setState s h) = progress h"
  by (simp_all add: setState_def)

lemma sent_chunks_append: "sent_chunks (xs @ ys) = sent_chunks xs @ sent_chunks ys"
  by (induction xs rule: sent_chunks.induct) simp_all


lemma state_changes_append: "state_changes (xs @ ys) = state_changes xs @ state_changes ys"
  by (induction xs rule: state_changes.induct) simp_all

lemma complete_calls_append: "complete_calls (xs @ ys) = complete_calls xs @ complete_calls ys"
  by (induction xs rule: complete_calls.induct) simp_all

lemma sent_chunks_chunk_events [simp]: "sent_chunks (chunk_events be rid chunks c tot tok k) = [k]"
  by (simp add: chunk_events_def split: sum.split)

lemma state_changes_chunk_events [simp]: "state_changes (chunk_events be rid chunks c tot tok k) = []"
  by (simp add: chunk_events_def split: sum.split)

lemma complete_calls_chunk_events [simp]: "complete_calls (chunk_events be rid chunks c tot tok k) = []"
  by (simp add: chunk_events_def split: sum.split)

lemma sent_chunks_walk: "sent_chunks (concat (map (chunk_events be rid chunks c tot tok) [i..<j])) = [i..<j]"
  by (induction j) (simp_all add: sent_chunks_append)

lemma state_changes_walk: "state_changes (concat (map (chunk_events be rid chunks c tot tok) [i..<j])) = []"
  by (induction j) (simp_all add: state_changes_append)

lemma complete_calls_walk: "complete_calls (concat (map (chunk_events be rid chunks c tot tok) [i..<j])) = []"
  by (induction j) (simp_all add: complete_calls_append)

lemma new_events_append [simp]: "trace h' = trace h @ es \<Longrightarrow> new_events h h' = es"
  by (simp add: new_events_def)

lemma uploadChunks_loop_shape:
  "uploadChunks_loop be (Some progress_callback) rid chunks c tot tok i h = (r, h') \<Longrightarrow>
   \<exists>j. i \<le> j \<and> (i < length chunks \<longrightarrow> i < j \<and> j \<le> length chunks)
     \<and> (\<not> i < length chunks \<longrightarrow> j = i)
     \<and> trace h' = trace h @ concat (map (chunk_events be rid chunks c tot tok) [i..<j])
     \<and> (\<forall>k. i \<le> k \<and> Suc k < j \<longrightarrow>
            (\<exists>res. uploadChunkFn be rid (chunks ! k) k c tot tok = Inr res \<and> \<not> ack_done res))
     \<and> (i < j \<longrightarrow>
           (case r of
              Inl e \<Rightarrow> uploadChunkFn be rid (chunks ! (j - 1)) (j - 1) c tot tok = Inl e
            | Inr u \<Rightarrow> (\<exists>res. uploadChunkFn be rid (chunks ! (j - 1)) (j - 1) c tot tok = Inr res
                          \<and> (ack_done res \<or> j = length chunks))))
     \<and> (j = i \<longrightarrow> r = Inr ())
     \<and> state h' = state h \<and> sessionStorage h' = sessionStorage h \<and> error h' = error h
     \<and> recordingId h' = recordingId h \<and> playbackUrl h' = playbackUrl h"
proof (induction be "Some progress_callback" rid chunks c tot tok i h arbitrary: r h'
       rule: uploadChunks_loop.induct)
  case (1 be rid chunks c tot tok i h)
  let ?send = "\<lambda>k. uploadChunkFn be rid (chunks ! k) k c tot tok"
  show ?case
  proof (cases "i < length chunks")
    case False
    with "1.prems" have "r = Inr ()" "h' = h" by simp_all
    with False show ?thesis by (intro exI [of _ i]) auto
  next
    case in_range: True
    show ?thesis
    proof (cases "?send i")
      case (Inl e)
      with "1.prems" in_range have "r = Inl e" "h' = log (ChunkCall rid i) h" by simp_all
      with in_range Inl show ?thesis
        by (intro exI [of _ "Suc i"]) (auto simp: chunk_events_def)
    next
      case (Inr res)
      let ?p = "\<lparr>uploadedBytes = ack_uploadedBytes res, totalBytes = tot,
                  percentage = real (ack_uploadedBytes res) / real tot * 100\<rparr>"
      let ?h1 = "setProgress (Some ?p) (log (ChunkCall rid i) h)"
      let ?h2 = "progress_callback ?p ?h1"
      have p: "progress_of res tot = ?p" by (simp add: progress_of_def)
      have h2: "?h2 = (case Some progress_callback of None \<Rightarrow> ?h1 | Some f \<Rightarrow> f ?p ?h1)"
        by simp
      have ev: "chunk_events be rid chunks c tot tok i =
          [ChunkCall rid i, SetProgress (Some ?p), SetProgress (Some ?p)]"
        using Inr by (simp add: chunk_events_def p)
      have tr2: "trace ?h2 = trace h @ chunk_events be rid chunks c tot tok i"
        by (simp add: ev progress_callback_def)
      show ?thesis
      proof (cases "ack_done res")
        case True
        with "1.prems" in_range Inr have "r = Inr ()" "h' = ?h2"
          by (simp_all add: Let_def)
        with in_range Inr True tr2 show ?thesis
          by (intro exI [of _ "Suc i"]) (auto simp: progress_callback_def)
      next
        case False
        with "1.prems" in_range Inr
        have rec: "uploadChunks_loop be (Some progress_callback) rid chunks c tot tok (Suc i) ?h2 = (r, h')"
          by (simp add: Let_def)
        from "1.hyps" [OF in_range Inr refl refl h2 False rec]
        obtain j where j: "Suc i \<le> j"
          "Suc i < length chunks \<longrightarrow> Suc i < j \<and> j \<le> length chunks"
          "\<not> Suc i < length chunks \<longrightarrow> j = Suc i"
          "trace h' = trace ?h2 @ concat (map (chunk_events be rid chunks c tot tok) [Suc i..<j])"
          "\<forall>k. Suc i \<le> k \<and> Suc k < j \<longrightarrow> (\<exists>res. ?send k = Inr res \<and> \<not> ack_done res)"
          "Suc i < j \<longrightarrow> (case r of Inl e \<Rightarrow> ?send (j - 1) = Inl e
              | Inr u \<Rightarrow> (\<exists>res. ?send (j - 1) = Inr res \<and> (ack_done res \<or> j = length chunks)))"
          "j = Suc i \<longrightarrow> r = Inr ()"
          "state h' = state ?h2" "sessionStorage h' = sessionStorage ?h2" "error h' = error ?h2"
          "recordingId h' = recordingId ?h2" "playbackUrl h' = playbackUrl ?h2"
          by blast
        have a: "i \<le> j" "i < j" "j \<le> length chunks" using j(1,2,3) in_range by auto
        have b: "trace h' = trace h @ concat (map (chunk_events be rid chunks c tot tok) [i..<j])"
          using j(4) tr2 a(2) by (simp add: upt_conv_Cons)
        have c: "\<forall>k. i \<le> k \<and> Suc k < j \<longrightarrow> (\<exists>res. ?send k = Inr res \<and> \<not> ack_done res)"
        proof (intro allI impI)
          fix k assume k: "i \<le> k \<and> Suc k < j"
          show "\<exists>res. ?send k = Inr res \<and> \<not> ack_done res"
          proof (cases "k = i")
            case True
            then show ?thesis using Inr False by simp
          next
            case False
            then show ?thesis using k j(5) by simp
          qed
        qed
        have d: "case r of Inl e \<Rightarrow> ?send (j - 1) = Inl e
              | Inr u \<Rightarrow> (\<exists>res. ?send (j - 1) = Inr res \<and> (ack_done res \<or> j = length chunks))"
        proof (cases "Suc i < j")
          case True
          then show ?thesis using j(6) by simp
        next
          case nb: False
          then have ji: "j = Suc i" using j(1) by simp
          then have r: "r = Inr ()" using j(7) by simp
          have n: "j = length chunks" using ji j(2) in_range by auto
          have ji1: "j - 1 = i" using ji by simp
          show ?thesis unfolding ji1 r using Inr n by simp
        qed
        have e: "state h' = state h" "sessionStorage h' = sessionStorage h" "error h' = error h"
          "recordingId h' = recordingId h" "playbackUrl h' = playbackUrl h"
          using j(8-12) by (simp_all add: progress_callback_def)
        show ?thesis
          using a b c d e in_range by (intro exI [of _ j]) simp
      qed
    qed
  qed
qed

lemma nth_chunks [simp]:
  "k < ceil_div (length blob) c \<Longrightarrow>
   map (nth_chunk blob c) [0..<ceil_div (length blob) c] ! k = nth_chunk blob c k"
  by simp




section \<open>Properties of the retry loop\<close>

lemma retry_loop_step_fail:
  "a < m \<Longrightarrow> fetch a = Inl e \<Longrightarrow> a \<noteq> m - 1 \<Longrightarrow>
   retry_loop fb fetch m a le =
     \<lparr>outcome = outcome (retry_loop fb fetch m (Suc a) (Some e)),
      requests = Suc (requests (retry_loop fb fetch m (Suc a) (Some e))),
      delays = (2 ^ a * 1000) # delays (retry_loop fb fetch m (Suc a) (Some e))\<rparr>"
  by (subst retry_loop.simps) (simp add: Let_def del: retry_loop.simps)

lemma retry_loop_step_last:
  "a < m \<Longrightarrow> fetch a = Inl e \<Longrightarrow> a = m - 1 \<Longrightarrow>
   retry_loop fb fetch m a le = \<lparr>outcome = Inl e, requests = 1, delays = []\<rparr>"
  by (subst retry_loop.simps) (simp del: retry_loop.simps)

lemma retry_loop_step_ok:
  "a < m \<Longrightarrow> fetch a = Inr res \<Longrightarrow>
   retry_loop fb fetch m a le = \<lparr>outcome = Inr res, requests = 1, delays = []\<rparr>"
  by (subst retry_loop.simps) (simp del: retry_loop.simps)

lemma retry_loop_all_fail:
  "a < m \<Longrightarrow> (\<forall>i. a \<le> i \<and> i < m \<longrightarrow> fetch i = Inl (e i)) \<Longrightarrow>
   retry_loop fb fetch m a le =
     \<lparr>outcome = Inl (e (m - 1)), requests = m - a, delays = map (\<lambda>i. 2 ^ i * 1000) [a..<m - 1]\<rparr>"
proof (induction "m - a" arbitrary: a le)
  case 0
  then show ?case by (simp del: retry_loop.simps)
next
  case (Suc d)
  have am: "a < m" by (rule Suc.prems(1))
  have fa: "fetch a = Inl (e a)" using Suc.prems by (simp del: retry_loop.simps)
  show ?case
  proof (cases "a = m - 1")
    case True
    have "m - a = 1" using True am by simp
    then show ?thesis
      using retry_loop_step_last [of a m fetch "e a" fb le] am fa True by (simp del: retry_loop.simps)
  next
    case False
    then have lt: "Suc a < m" using am by simp
    have d: "d = m - Suc a" using Suc.hyps(2) by simp
    have later: "\<forall>i. Suc a \<le> i \<and> i < m \<longrightarrow> fetch i = Inl (e i)"
      using Suc.prems(2) by (simp del: retry_loop.simps)
    have rec: "retry_loop fb fetch m (Suc a) (Some (e a)) =
        \<lparr>outcome = Inl (e (m - 1)), requests = m - Suc a,
         delays = map (\<lambda>i. 2 ^ i * 1000) [Suc a..<m - 1]\<rparr>"
      using d lt later by (rule Suc.hyps(1))
    have upt: "[a..<m - 1] = a # [Suc a..<m - 1]" using lt by (simp add: upt_conv_Cons)
    have cnt: "Suc (m - Suc a) = m - a" using lt by simp
    have step: "retry_loop fb fetch m a le =
       \<lparr>outcome = outcome (retry_loop fb fetch m (Suc a) (Some (e a))),
        requests = Suc (requests (retry_loop fb fetch m (Suc a) (Some (e a)))),
        delays = (2 ^ a * 1000) # delays (retry_loop fb fetch m (Suc a) (Some (e a)))\<rparr>"
      using retry_loop_step_fail [of a m fetch "e a" fb le] am fa False by blast
    show ?thesis
      unfolding step rec upt using cnt by (simp del: retry_loop.simps)
  qed
qed

lemma retry_loop_first_success:
  "a \<le> k \<Longrightarrow> k < m \<Longrightarrow> (\<forall>i. a \<le> i \<and> i < k \<longrightarrow> fetch i = Inl (e i)) \<Longrightarrow> fetch k = Inr res \<Longrightarrow>
   retry_loop fb fetch m a le =
     \<lparr>outcome = Inr res, requests = Suc k - a, delays = map (\<lambda>i. 2 ^ i * 1000) [a..<k]\<rparr>"
proof (induction "k - a" arbitrary: a le)
  case 0
  then have ak: "a = k" by simp
  show ?case
    using retry_loop_step_ok [of k m fetch res fb le] "0.prems"(2,4) ak
    by (simp del: retry_loop.simps)
next
  case (Suc d)
  have ak: "a < k" using Suc.hyps(2) by simp
  have am: "a < m" using ak Suc.prems(2) by simp
  have fa: "fetch a = Inl (e a)" using Suc.prems(3) ak by (simp del: retry_loop.simps)
  have nl: "a \<noteq> m - 1" using ak Suc.prems(2) by simp
  have d: "d = k - Suc a" using Suc.hyps(2) by simp
  have sk: "Suc a \<le> k" using ak by simp
  have later: "\<forall>i. Suc a \<le> i \<and> i < k \<longrightarrow> fetch i = Inl (e i)"
    using Suc.prems(3) by (simp del: retry_loop.simps)
  have rec: "retry_loop fb fetch m (Suc a) (Some (e a)) =
      \<lparr>outcome = Inr res, requests = Suc k - Suc a, delays = map (\<lambda>i. 2 ^ i * 1000) [Suc a..<k]\<rparr>"
    using d sk Suc.prems(2) later Suc.prems(4) by (rule Suc.hyps(1))
  have upt: "[a..<k] = a # [Suc a..<k]" using ak by (simp add: upt_conv_Cons)
  have cnt: "Suc (Suc k - Suc a) = Suc k - a" using ak by simp
  have step: "retry_loop fb fetch m a le =
     \<lparr>outcome = outcome (retry_loop fb fetch m (Suc a) (Some (e a))),
      requests = Suc (requests (retry_loop fb fetch m (Suc a) (Some (e a)))),
      delays = (2 ^ a * 1000) # delays (retry_loop fb fetch m (Suc a) (Some (e a)))\<rparr>"
    using retry_loop_step_fail [of a m fetch "e a" fb le] am fa nl by blast
  show ?case
    unfolding step rec upt using cnt by (simp del: retry_loop.simps)
qed

text \<open>
  With the default budget the transport makes at most three requests, and the only
  delays it ever sleeps are one second after the first failure and two seconds after the
  second.
\<close>

lemma retry_loop_default_budget:
  "requests (retry_loop fb fetch 3 0 None) \<le> 3
   \<and> delays (retry_loop fb fetch 3 0 None) \<in> {[], [1000], [1000, 2000]}"
proof (cases "fetch 0")
  case (Inr res)
  then show ?thesis using retry_loop_step_ok [of 0 3 fetch res fb None]
    by (simp del: retry_loop.simps)
next
  case f0: (Inl e0)
  have s0: "retry_loop fb fetch 3 0 None =
     \<lparr>outcome = outcome (retry_loop fb fetch 3 1 (Some e0)),
      requests = Suc (requests (retry_loop fb fetch 3 1 (Some e0))),
      delays = 1000 # delays (retry_loop fb fetch 3 1 (Some e0))\<rparr>"
    using retry_loop_step_fail [of 0 3 fetch e0 fb None] f0 by (simp del: retry_loop.simps)
  show ?thesis
  proof (cases "fetch 1")
    case (Inr res)
    then show ?thesis using s0 retry_loop_step_ok [of 1 3 fetch res fb "Some e0"]
      by (simp del: retry_loop.simps)
  next
    case f1: (Inl e1)
    have s1: "retry_loop fb fetch 3 1 (Some e0) =
       \<lparr>outcome = outcome (retry_loop fb fetch 3 (Suc 1) (Some e1)),
        requests = Suc (requests (retry_loop fb fetch 3 (Suc 1) (Some e1))),
        delays = 2000 # delays (retry_loop fb fetch 3 (Suc 1) (Some e1))\<rparr>"
      using retry_loop_step_fail [of 1 3 fetch e1 fb "Some e0"] f1
      by (simp del: retry_loop.simps)
    show ?thesis
    proof (cases "fetch (Suc 1)")
      case (Inr res)
      then show ?thesis using s0 s1 retry_loop_step_ok [of "Suc 1" 3 fetch res fb "Some e1"]
        by (simp del: retry_loop.simps)
    next
      case f2: (Inl e2)
      then show ?thesis using s0 s1 retry_loop_step_last [of "Suc 1" 3 fetch e2 fb "Some e1"]
        by (simp del: retry_loop.simps)
    qed
  qed
qed

section \<open>The scenarios, evaluated\<close>


lemma length_payload7 [simp]: "length payload7 = 7"
  by (simp add: payload7_def)

lemma ack_cumulative_mono:
  "k \<le> k' \<Longrightarrow> ack_cumulative rid chunk k c tot tok = Inr res \<Longrightarrow>
   ack_cumulative rid chunk' k' c tot tok = Inr res' \<Longrightarrow> ack_uploadedBytes res \<le> ack_uploadedBytes res'"
proof -
  assume kk: "k \<le> k'" and r: "ack_cumulative rid chunk k c tot tok = Inr res"
    and r': "ack_cumulative rid chunk' k' c tot tok = Inr res'"
  have "k * c \<le> k' * c" using kk by simp
  then have "min (k * c + c) tot \<le> min (k' * c + c) tot" by (intro min.mono) simp_all
  then show ?thesis using r r' by (auto simp: ack_cumulative_def)
qed

section \<open>Properties of the walk of one stream\<close>

lemma walk_index_stream_event [simp]: "walk_index (stream_event uploadFn rid chunks c tot k) = k"
  by (simp add: stream_event_def split: sum.split)

lemma uploadStreamChunks_loop_shape:
  "\<exists>j. i \<le> j \<and> (i < length chunks \<longrightarrow> i < j \<and> j \<le> length chunks)
     \<and> (\<not> i < length chunks \<longrightarrow> j = i)
     \<and> uploadStreamChunks_loop uploadFn rid chunks c tot i
          = map (stream_event uploadFn rid chunks c tot) [i..<j]
     \<and> (\<forall>k. i \<le> k \<and> Suc k < j \<longrightarrow> acked_not_done (uploadFn rid (chunks ! k) k c tot))
     \<and> (i < j \<longrightarrow> \<not> acked_not_done (uploadFn rid (chunks ! (j - 1)) (j - 1) c tot)
                    \<or> j = length chunks)"
proof (induction uploadFn rid chunks c tot i rule: uploadStreamChunks_loop.induct)
  case (1 uploadFn rid chunks c tot i)
  let ?send = "\<lambda>k. uploadFn rid (chunks ! k) k c tot"
  let ?ev = "stream_event uploadFn rid chunks c tot"
  show ?case
  proof (cases "i < length chunks")
    case False
    then have "uploadStreamChunks_loop uploadFn rid chunks c tot i = []" by simp
    with False show ?thesis by (intro exI [of _ i]) auto
  next
    case in_range: True
    show ?thesis
    proof (cases "?send i")
      case (Inl e)
      then have "uploadStreamChunks_loop uploadFn rid chunks c tot i = [?ev i]"
        using in_range by (simp add: stream_event_def)
      with in_range Inl show ?thesis
        by (intro exI [of _ "Suc i"]) (auto simp: acked_not_done_def)
    next
      case (Inr res)
      show ?thesis
      proof (cases "ack_done res")
        case True
        then have "uploadStreamChunks_loop uploadFn rid chunks c tot i = [?ev i]"
          using in_range Inr by (simp add: stream_event_def progress_of_def)
        with in_range Inr True show ?thesis
          by (intro exI [of _ "Suc i"]) (auto simp: acked_not_done_def)
      next
        case False
        have step: "uploadStreamChunks_loop uploadFn rid chunks c tot i =
            ?ev i # uploadStreamChunks_loop uploadFn rid chunks c tot (Suc i)"
          using in_range Inr False by (simp add: stream_event_def progress_of_def)
        from "1.IH" [OF in_range Inr False]
        obtain j where j: "Suc i \<le> j"
          "Suc i < length chunks \<longrightarrow> Suc i < j \<and> j \<le> length chunks"
          "\<not> Suc i < length chunks \<longrightarrow> j = Suc i"
          "uploadStreamChunks_loop uploadFn rid chunks c tot (Suc i) = map ?ev [Suc i..<j]"
          "\<forall>k. Suc i \<le> k \<and> Suc k < j \<longrightarrow> acked_not_done (?send k)"
          "Suc i < j \<longrightarrow> \<not> acked_not_done (?send (j - 1)) \<or> j = length chunks"
          by blast
        have a: "i < j" "j \<le> length chunks" using j(1,2,3) in_range by auto
        have b: "uploadStreamChunks_loop uploadFn rid chunks c tot i = map ?ev [i..<j]"
          using step j(4) a(1) by (simp add: upt_conv_Cons)
        have first: "acked_not_done (?send i)" using Inr False by (simp add: acked_not_done_def)
        have c: "\<forall>k. i \<le> k \<and> Suc k < j \<longrightarrow> acked_not_done (?send k)"
        proof (intro allI impI)
          fix k assume k: "i \<le> k \<and> Suc k < j"
          show "acked_not_done (?send k)"
          proof (cases "k = i")
            case True
            then show ?thesis using first by simp
          next
            case False
            then show ?thesis using k j(5) by simp
          qed
        qed
        have d: "\<not> acked_not_done (?send (j - 1)) \<or> j = length chunks"
        proof (cases "Suc i < j")
          case True
          then show ?thesis using j(6) by simp
        next
          case False
          then have "j = Suc i" using j(1) by simp
          then show ?thesis using j(2) in_range by auto
        qed
        show ?thesis using a b c d in_range by (intro exI [of _ j]) simp
      qed
    qed
  qed
qed


section \<open>Properties of the dual session\<close>

lemma dual_trace_log [simp]: "dual_trace (dual_log e d) = dual_trace d @ [e]"
  by (simp add: dual_log_def)

lemma dual_trace_setState [simp]: "dual_trace (dual_setState s d) = dual_trace d @ [DualSetState s]"
  by (simp add: dual_setState_def)

lemma dual_trace_setProgress [simp]:
  "dual_trace (dual_setProgress p d) = dual_trace d @ [DualSetProgress p]"
  by (simp add: dual_setProgress_def)

lemma dual_fields_log [simp]:
  "dual_state (dual_log e d) = dual_state d" "dual_error (dual_log e d) = dual_error d"
  "dual_recordingId (dual_log e d) = dual_recordingId d"
  "dual_playbackUrl (dual_log e d) = dual_playbackUrl d"
  "dual_progress (dual_log e d) = dual_progress d"
  by (simp_all add: dual_log_def)

lemma dual_fields_setState [simp]:
  "dual_state (dual_setState s d) = s" "dual_error (dual_setState s d) = dual_error d"
  "dual_recordingId (dual_setState s d) = dual_recordingId d"
  "dual_playbackUrl (dual_setState s d) = dual_playbackUrl d"
  "dual_progress (dual_setState s d) = dual_progress d"
  by (simp_all add: dual_setState_def)

lemma dual_fields_setProgress [simp]:
  "dual_state (dual_setProgress p d) = dual_state d" "dual_error (dual_setProgress p d) = dual_error d"
  "dual_recordingId (dual_setProgress p d) = dual_recordingId d"
  "dual_playbackUrl (dual_setProgress p d) = dual_playbackUrl d"
  "dual_progress (dual_setProgress p d) = p"
  by (simp_all add: dual_setProgress_def)

lemma stream_calls_append: "stream_calls s (xs @ ys) = stream_calls s xs @ stream_calls s ys"
  by (induction s xs rule: stream_calls.induct) simp_all


lemma dual_complete_calls_append:
  "dual_complete_calls (xs @ ys) = dual_complete_calls xs @ dual_complete_calls ys"
  by (induction xs rule: dual_complete_calls.induct) simp_all

lemma dual_new_events_append [simp]:
  "dual_trace d' = dual_trace d @ es \<Longrightarrow> dual_new_events d d' = es"
  by (simp add: dual_new_events_def)

lemma of_stream_simps [simp]:
  "of_stream s [] = []"
  "of_stream s ((s', e) # evs) = (if s' = s then e # of_stream s evs else of_stream s evs)"
  by (simp_all add: of_stream_def)

lemma of_stream_map_Pair [simp]:
  "of_stream s (map (Pair s') xs) = (if s' = s then xs else [])"
  by (induction xs) auto

lemma interleave_screen: "of_stream Screen (interleave sched xs ys) = xs"
  by (induction sched xs ys rule: interleave.induct) simp_all

lemma interleave_webcam: "of_stream Webcam (interleave sched xs ys) = ys"
  by (induction sched xs ys rule: interleave.induct) simp_all

lemma set_interleave:
  "snd ` set (interleave sched xs ys) = set xs \<union> set ys"
  by (induction sched xs ys rule: interleave.induct) (auto simp: image_iff)

text \<open>The run of the interleaved events.\<close>

lemma stream_progress_fields [simp]:
  "dual_state (stream_progress s p d) = dual_state d"
  "dual_error (stream_progress s p d) = dual_error d"
  "dual_recordingId (stream_progress s p d) = dual_recordingId d"
  "dual_playbackUrl (stream_progress s p d) = dual_playbackUrl d"
  by (simp_all add: stream_progress_def)

lemma stream_progress_trace:
  "\<exists>q. dual_trace (stream_progress s p d) = dual_trace d @ [DualSetProgress q]"
  by (simp add: stream_progress_def)

lemma run_streams_rejected:
  "fst (run_streams rid evs rej d) =
     (case rej of
        Some e \<Rightarrow> Some e
      | None \<Rightarrow> (case filter is_threw (map snd evs) of
                   [] \<Rightarrow> None
                 | Acked i p # es \<Rightarrow> None
                 | Threw i e # es \<Rightarrow> Some e))"
  by (induction rid evs rej d rule: run_streams.induct) (simp_all split: option.splits)

lemma run_streams_state:
  "dual_state (snd (run_streams rid evs rej d)) =
     (if rej = None \<and> filter is_threw (map snd evs) \<noteq> [] then Dual_Error else dual_state d)"
  by (induction rid evs rej d rule: run_streams.induct)
     (simp_all add: dual_catch_def split: option.splits)

lemma run_streams_error:
  "dual_error (snd (run_streams rid evs rej d)) =
     (if rej = None \<and> filter is_threw (map snd evs) \<noteq> []
      then fst (run_streams rid evs rej d) else dual_error d)"
  by (induction rid evs rej d rule: run_streams.induct)
     (simp_all add: dual_catch_def run_streams_rejected split: option.splits)

lemma run_streams_ids:
  "dual_recordingId (snd (run_streams rid evs rej d)) = dual_recordingId d
   \<and> dual_playbackUrl (snd (run_streams rid evs rej d)) = dual_playbackUrl d"
  by (induction rid evs rej d rule: run_streams.induct)
     (simp_all add: dual_catch_def split: option.splits)

lemma run_streams_trace:
  "\<exists>new. dual_trace (snd (run_streams rid evs rej d)) = dual_trace d @ new
     \<and> stream_calls s new = map walk_index (of_stream s evs)
     \<and> dual_complete_calls new = []
     \<and> dual_state_changes new =
         (if rej = None \<and> filter is_threw (map snd evs) \<noteq> [] then [Dual_Error] else [])"
proof (induction rid evs rej d rule: run_streams.induct)
  case (1 rid rejected d)
  then show ?case by simp
next
  case (2 rid s' i p evs rejected d)
  let ?d1 = "stream_progress s' p (dual_log (StreamChunkCall s' rid i) d)"
  obtain q where q: "dual_trace ?d1 = dual_trace d @ [StreamChunkCall s' rid i, DualSetProgress q]"
    using stream_progress_trace [of s' p "dual_log (StreamChunkCall s' rid i) d"] by auto
  from "2.IH" obtain new where new:
    "dual_trace (snd (run_streams rid evs rejected ?d1)) = dual_trace ?d1 @ new"
    "stream_calls s new = map walk_index (of_stream s evs)"
    "dual_complete_calls new = []"
    "dual_state_changes new =
       (if rejected = None \<and> filter is_threw (map snd evs) \<noteq> [] then [Dual_Error] else [])"
    by blast
  show ?case
    using new q
    by (intro exI [of _ "[StreamChunkCall s' rid i, DualSetProgress q] @ new"]) simp
next
  case (3 rid s' i e evs rejected d)
  show ?case
  proof (cases rejected)
    case None
    let ?d1 = "dual_catch e (dual_log (StreamChunkCall s' rid i) d)"
    have t1: "dual_trace ?d1 = dual_trace d @ [StreamChunkCall s' rid i, DualSetState Dual_Error]"
      by (simp add: dual_catch_def)
    from "3.IH"(1) [OF None] obtain new where new:
      "dual_trace (snd (run_streams rid evs (Some e) ?d1)) = dual_trace ?d1 @ new"
      "stream_calls s new = map walk_index (of_stream s evs)"
      "dual_complete_calls new = []"
      "dual_state_changes new = []"
      by auto
    show ?thesis
      using new t1 None
      by (intro exI [of _ "[StreamChunkCall s' rid i, DualSetState Dual_Error] @ new"]) simp
  next
    case (Some e0)
    let ?d1 = "dual_log (StreamChunkCall s' rid i) d"
    from "3.IH"(2) [OF Some] obtain new where new:
      "dual_trace (snd (run_streams rid evs rejected ?d1)) = dual_trace ?d1 @ new"
      "stream_calls s new = map walk_index (of_stream s evs)"
      "dual_complete_calls new = []"
      "dual_state_changes new = []"
      using Some by auto
    show ?thesis
      using new Some
      by (intro exI [of _ "[StreamChunkCall s' rid i] @ new"]) simp
  qed
qed

lemma filter_threw_interleave:
  "filter is_threw (map snd (interleave sched xs ys)) = [] \<longleftrightarrow>
     (\<forall>e\<in>set xs \<union> set ys. \<not> is_threw e)"
proof -
  have "filter is_threw (map snd (interleave sched xs ys)) = [] \<longleftrightarrow>
      (\<forall>e\<in>snd ` set (interleave sched xs ys). \<not> is_threw e)"
    by (simp add: filter_empty_conv)
  then show ?thesis by (simp only: set_interleave)
qed

lemma run_streams_rejected_iff:
  "fst (run_streams rid evs None d) = None \<longleftrightarrow> filter is_threw (map snd evs) = []"
proof (cases "filter is_threw (map snd evs)")
  case Nil
  then show ?thesis by (simp add: run_streams_rejected)
next
  case (Cons x xs)
  then have "x \<in> set (filter is_threw (map snd evs))" by simp
  then have "is_threw x" by simp
  then show ?thesis using Cons by (cases x) (simp_all add: run_streams_rejected)
qed

lemma dual_upload_body_shape:
  assumes init: "initDualUpload be (length screenBlob) (length webcamBlob)
                   (webcamPositionToApiFormat position) (duration opts) = Inr initResult"
    and sw: "uploadStreamChunks screenBlob (init_recordingId initResult) (init_chunkSize initResult)
               (uploadScreenChunkFn be) = Some screenWalk"
    and ww: "uploadStreamChunks webcamBlob (init_recordingId initResult) (init_chunkSize initResult)
               (uploadWebcamChunkFn be) = Some webcamWalk"
  shows "\<exists>r d' new rest.
       dual_upload_body be sched screenBlob webcamBlob opts position d = Some (r, d')
     \<and> dual_trace d' = dual_trace d
          @ [DualSetState Dual_Initializing, DualInitCall (length screenBlob) (length webcamBlob),
             DualSetState Dual_Uploading,
             DualSetProgress (Some \<lparr>screen = \<lparr>uploadedBytes = 0, totalBytes = length screenBlob, percentage = 0\<rparr>,
                                    webcam = \<lparr>uploadedBytes = 0, totalBytes = length webcamBlob, percentage = 0\<rparr>\<rparr>)]
          @ new @ rest
     \<and> stream_calls Screen new = map walk_index screenWalk
     \<and> stream_calls Webcam new = map walk_index webcamWalk
     \<and> dual_complete_calls new = []
     \<and> ((\<exists>e\<in>set screenWalk \<union> set webcamWalk. is_threw e)
          \<and> (\<exists>e. r = Inl e \<and> dual_error d' = Some e) \<and> dual_state d' = Dual_Error
          \<and> dual_state_changes new = [Dual_Error] \<and> rest = []
        \<or> (\<forall>e\<in>set screenWalk \<union> set webcamWalk. \<not> is_threw e)
          \<and> dual_state_changes new = []
          \<and> (rest = [DualSetState Dual_Completing, DualCompleteCall (init_recordingId initResult),
                      DualSetState Dual_Error]
               \<and> (\<exists>e. r = Inl e \<and> dual_error d' = Some e) \<and> dual_state d' = Dual_Error
             \<or> rest = [DualSetState Dual_Completing, DualCompleteCall (init_recordingId initResult),
                      DualSetState Dual_Completed]
               \<and> (\<exists>v. r = Inr v) \<and> dual_state d' = Dual_Completed))"
proof -
  let ?rid = "init_recordingId initResult"
  let ?p0 = "Some \<lparr>screen = \<lparr>uploadedBytes = 0, totalBytes = length screenBlob, percentage = 0\<rparr>,
                   webcam = \<lparr>uploadedBytes = 0, totalBytes = length webcamBlob, percentage = 0\<rparr>\<rparr>"
  let ?d1 = "dual_log (DualInitCall (length screenBlob) (length webcamBlob))
               (dual_setState Dual_Initializing d)"
  let ?d3 = "dual_setProgress ?p0 (dual_setState Dual_Uploading (?d1\<lparr>dual_recordingId := Some ?rid\<rparr>))"
  let ?evs = "interleave sched screenWalk webcamWalk"
  let ?pre = "[DualSetState Dual_Initializing, DualInitCall (length screenBlob) (length webcamBlob),
             DualSetState Dual_Uploading, DualSetProgress ?p0]"
  let ?P = "\<lambda>r d' new rest.
       dual_upload_body be sched screenBlob webcamBlob opts position d = Some (r, d')
     \<and> dual_trace d' = dual_trace d @ ?pre @ new @ rest
     \<and> stream_calls Screen new = map walk_index screenWalk
     \<and> stream_calls Webcam new = map walk_index webcamWalk
     \<and> dual_complete_calls new = []
     \<and> ((\<exists>e\<in>set screenWalk \<union> set webcamWalk. is_threw e)
          \<and> (\<exists>e. r = Inl e \<and> dual_error d' = Some e) \<and> dual_state d' = Dual_Error
          \<and> dual_state_changes new = [Dual_Error] \<and> rest = []
        \<or> (\<forall>e\<in>set screenWalk \<union> set webcamWalk. \<not> is_threw e)
          \<and> dual_state_changes new = []
          \<and> (rest = [DualSetState Dual_Completing, DualCompleteCall (init_recordingId initResult),
                      DualSetState Dual_Error]
               \<and> (\<exists>e. r = Inl e \<and> dual_error d' = Some e) \<and> dual_state d' = Dual_Error
             \<or> rest = [DualSetState Dual_Completing, DualCompleteCall (init_recordingId initResult),
                      DualSetState Dual_Completed]
               \<and> (\<exists>v. r = Inr v) \<and> dual_state d' = Dual_Completed))"
  obtain rej d4 where rs: "run_streams ?rid ?evs None ?d3 = (rej, d4)"
    by (cases "run_streams ?rid ?evs None ?d3")
  have body: "dual_upload_body be sched screenBlob webcamBlob opts position d =
      (case rej of
         Some e \<Rightarrow> Some (Inl e, d4)
       | None \<Rightarrow>
           (let d5 = dual_log (DualCompleteCall ?rid) (dual_setState Dual_Completing d4)
            in case completeDualUpload be ?rid of
                 Inl e \<Rightarrow> Some (Inl e, dual_catch e d5)
               | Inr completeResult \<Rightarrow>
                   (let d6 = (if truthy (dual_complete_playbackUrl completeResult)
                              then d5\<lparr>dual_playbackUrl := dual_complete_playbackUrl completeResult\<rparr>
                              else d5)
                    in Some (Inr (dual_complete_recordingId completeResult,
                                  dual_complete_playbackUrl completeResult,
                                  dual_complete_fileSize completeResult),
                             dual_setState Dual_Completed d6))))"
    using init sw ww rs by (simp add: dual_upload_body_def Let_def split: option.split)
  have t3: "dual_trace ?d3 = dual_trace d @ ?pre" by simp
  have rej: "rej = fst (run_streams ?rid ?evs None ?d3)" and d4: "d4 = snd (run_streams ?rid ?evs None ?d3)"
    using rs by simp_all
  obtain new where new: "dual_trace d4 = dual_trace ?d3 @ new"
    "stream_calls Screen new = map walk_index (of_stream Screen ?evs)"
    "dual_complete_calls new = []"
    "dual_state_changes new =
       (if filter is_threw (map snd ?evs) \<noteq> [] then [Dual_Error] else [])"
    using run_streams_trace [of ?rid ?evs None ?d3 Screen] d4 by auto
  obtain new' where new': "dual_trace d4 = dual_trace ?d3 @ new'"
    "stream_calls Webcam new' = map walk_index (of_stream Webcam ?evs)"
    using run_streams_trace [of ?rid ?evs None ?d3 Webcam] d4 by auto
  have "new' = new" using new(1) new'(1) by simp
  then have wc: "stream_calls Webcam new = map walk_index webcamWalk"
    using new'(2) by (simp add: interleave_webcam)
  have sc: "stream_calls Screen new = map walk_index screenWalk"
    using new(2) by (simp add: interleave_screen)
  have st4: "dual_state d4 =
      (if filter is_threw (map snd ?evs) \<noteq> [] then Dual_Error else Dual_Uploading)"
    using run_streams_state [of ?rid ?evs None ?d3] d4 by simp
  have er4: "filter is_threw (map snd ?evs) \<noteq> [] \<Longrightarrow> dual_error d4 = rej"
    using run_streams_error [of ?rid ?evs None ?d3] d4 rej by simp
  show ?thesis
  proof (cases "filter is_threw (map snd ?evs) = []")
    case False
    then have threw: "\<exists>e\<in>set screenWalk \<union> set webcamWalk. is_threw e"
      using filter_threw_interleave [of sched screenWalk webcamWalk] by blast
    have "fst (run_streams ?rid ?evs None ?d3) \<noteq> None"
      using False by (simp only: run_streams_rejected_iff not_False_eq_True)
    then have "rej \<noteq> None" by (simp only: rs fst_conv not_False_eq_True)
    then obtain e where e: "rej = Some e" by (cases rej) simp_all
    have res: "dual_upload_body be sched screenBlob webcamBlob opts position d = Some (Inl e, d4)"
      using body e by simp
    have tr: "dual_trace d4 = dual_trace d @ ?pre @ new @ []"
      using new(1) t3 by simp
    have "dual_state d4 = Dual_Error" "dual_error d4 = Some e" "dual_state_changes new = [Dual_Error]"
      using st4 er4 new(4) False e by simp_all
    with res tr sc wc new(3) threw have "?P (Inl e) d4 new []" by simp
    then show ?thesis by (intro exI) assumption
  next
    case True
    then have clean: "\<forall>e\<in>set screenWalk \<union> set webcamWalk. \<not> is_threw e"
      using filter_threw_interleave [of sched screenWalk webcamWalk] by blast
    have "fst (run_streams ?rid ?evs None ?d3) = None"
      using True by (simp only: run_streams_rejected_iff)
    then have none: "rej = None" by (simp only: rs fst_conv)
    have nsc: "dual_state_changes new = []" using new(4) True by simp
    let ?d5 = "dual_log (DualCompleteCall ?rid) (dual_setState Dual_Completing d4)"
    have t5: "dual_trace ?d5 = dual_trace d @ ?pre @ new @ [DualSetState Dual_Completing, DualCompleteCall ?rid]"
      using new(1) t3 by simp
    show ?thesis
    proof (cases "completeDualUpload be ?rid")
      case (Inl e)
      have res: "dual_upload_body be sched screenBlob webcamBlob opts position d =
          Some (Inl e, dual_catch e ?d5)"
        using body none Inl by (simp add: Let_def)
      have tr: "dual_trace (dual_catch e ?d5) = dual_trace d @ ?pre @ new
          @ [DualSetState Dual_Completing, DualCompleteCall ?rid, DualSetState Dual_Error]"
        using t5 by (simp add: dual_catch_def)
      have "dual_state (dual_catch e ?d5) = Dual_Error" "dual_error (dual_catch e ?d5) = Some e"
        by (simp_all add: dual_catch_def)
      with res tr sc wc new(3) clean nsc
      have "?P (Inl e) (dual_catch e ?d5) new
          [DualSetState Dual_Completing, DualCompleteCall ?rid, DualSetState Dual_Error]"
        by simp
      then show ?thesis by (intro exI) assumption
    next
      case (Inr cr)
      let ?d6 = "if truthy (dual_complete_playbackUrl cr)
                 then ?d5\<lparr>dual_playbackUrl := dual_complete_playbackUrl cr\<rparr> else ?d5"
      let ?v = "(dual_complete_recordingId cr, dual_complete_playbackUrl cr, dual_complete_fileSize cr)"
      have res: "dual_upload_body be sched screenBlob webcamBlob opts position d =
          Some (Inr ?v, dual_setState Dual_Completed ?d6)"
        using body none Inr by (simp add: Let_def)
      have tr: "dual_trace (dual_setState Dual_Completed ?d6) = dual_trace d @ ?pre @ new
          @ [DualSetState Dual_Completing, DualCompleteCall ?rid, DualSetState Dual_Completed]"
        using t5 by simp
      have st: "dual_state (dual_setState Dual_Completed ?d6) = Dual_Completed" by simp
      from res tr sc wc new(3) clean nsc st
      have "?P (Inr ?v) (dual_setState Dual_Completed ?d6) new
          [DualSetState Dual_Completing, DualCompleteCall ?rid, DualSetState Dual_Completed]"
        by simp
      then show ?thesis by (intro exI) assumption
    qed
  qed
qed

lemma dual_new_events_self [simp]: "dual_new_events d d = []"
  by (simp add: dual_new_events_def)

lemma dual_upload_options:
  "duration opts \<noteq> 0 \<Longrightarrow> webcamPosition opts = Some position \<Longrightarrow>
   dual_upload be sched screenBlob webcamBlob (Some opts) d =
     dual_upload_body be sched screenBlob webcamBlob opts position
       ((dual_setProgress None (d\<lparr>dual_error := None\<rparr>))
          \<lparr>dual_recordingId := None, dual_playbackUrl := None\<rparr>)"
  by (simp add: dual_upload_def)

lemma clean_walk_ended:
  assumes walk: "uploadStreamChunks blob rid c uploadFn = Some walk"
    and clean: "\<forall>e\<in>set walk. \<not> is_threw e"
  shows "walk_ended uploadFn rid blob c (map walk_index walk)"
proof -
  from walk obtain chunks where sl: "sliceBlobIntoChunks blob c = Some chunks"
    and w: "walk = uploadStreamChunks_loop uploadFn rid chunks c (length blob) 0"
    by (auto simp: uploadStreamChunks_def split: option.splits)
  let ?send = "\<lambda>k. uploadFn rid (chunks ! k) k c (length blob)"
  let ?ev = "stream_event uploadFn rid chunks c (length blob)"
  from uploadStreamChunks_loop_shape [of 0 chunks uploadFn rid c "length blob"]
  obtain j where j: "0 < length chunks \<longrightarrow> 0 < j \<and> j \<le> length chunks"
    "\<not> 0 < length chunks \<longrightarrow> j = 0"
    "uploadStreamChunks_loop uploadFn rid chunks c (length blob) 0 = map ?ev [0..<j]"
    "0 < j \<longrightarrow> \<not> acked_not_done (?send (j - 1)) \<or> j = length chunks"
    "\<forall>k. 0 \<le> k \<and> Suc k < j \<longrightarrow> acked_not_done (?send k)"
    by (elim exE conjE)
  have wj: "walk = map ?ev [0..<j]" using w j(3) by simp
  have idx: "map walk_index walk = [0..<j]"
    unfolding wj by (simp add: map_idI)
  have jn: "j \<le> length chunks" using j(1,2) by (cases "0 < length chunks") auto
  have ack: "is_acked (?send k)" if "k < j" for k
  proof -
    have "?ev k \<in> set walk" using that wj by simp
    then have "\<not> is_threw (?ev k)" using clean by blast
    then show ?thesis by (cases "?send k") (simp_all add: stream_event_def is_acked_def)
  qed
  have all: "list_all (\<lambda>k. is_acked (?send k)) [0..<j]"
    using ack by (simp add: list_all_iff)
  have fin: "j = length chunks \<or> ([0..<j] \<noteq> [] \<and> acked_done (?send (last [0..<j])))"
  proof (cases "j = length chunks")
    case True
    then show ?thesis by simp
  next
    case False
    then have pos: "0 < j" using j(1,2) by (cases "0 < length chunks") auto
    then have nd: "\<not> acked_not_done (?send (j - 1))" using j(4) False by simp
    have "is_acked (?send (j - 1))" using pos by (intro ack) simp
    with nd have "acked_done (?send (j - 1))"
      by (cases "?send (j - 1)") (simp_all add: is_acked_def acked_done_def acked_not_done_def)
    moreover have "last [0..<j] = j - 1" using pos by (cases j) simp_all
    ultimately show ?thesis using pos by simp
  qed
  have "butlast [0..<j] = [0..<j - 1]" by (cases j) simp_all
  moreover have "list_all (\<lambda>k. acked_not_done (?send k)) [0..<j - 1]"
    using j(5) by (simp add: list_all_iff)
  ultimately have before: "list_all (\<lambda>k. acked_not_done (?send k)) (butlast [0..<j])"
    by simp
  show ?thesis
    unfolding walk_ended_def idx using sl jn all before fin by simp
qed

text \<open>The dual scenarios, evaluated.\<close>

lemma payload5_chunks: "sliceBlobIntoChunks payload5 2 = Some [[1, 2], [3, 4], [5]]"
  by (simp add: payload5_def sliceBlobIntoChunks_def slice_loop.simps blob_slice_def)

lemma payload3_chunks: "sliceBlobIntoChunks payload3 2 = Some [[1, 2], [3]]"
  by (simp add: payload3_def sliceBlobIntoChunks_def slice_loop.simps blob_slice_def)

lemma length_payload5 [simp]: "length payload5 = 5"
  by (simp add: payload5_def)

lemma length_payload3 [simp]: "length payload3 = 3"
  by (simp add: payload3_def)

lemmas dual_eval =
  dual_upload_def dual_upload_body_def uploadStreamChunks_def payload5_chunks payload3_chunks
  scenarioC_backend_def good_dual_backend_def dual_options_def screen_fails_second_def
  ack_stream_def ack_cumulative_def uploadScreenChunk_def failing_fetch_def
  webcamPositionToApiFormat_def stream_progress_def dual_catch_def dual_setState_def
  dual_setProgress_def dual_log_def useDualUpload_def truthy_def Let_def dual_new_events_def


lemma good_dual_run:
  "\<exists>r d'. dual_upload good_dual_backend [True, True, True] payload5 payload3 (Some dual_options) useDualUpload
        = Some (r, d')
     \<and> dual_complete_calls (dual_new_events useDualUpload d') = [''rec-2'']
     \<and> all_stream_calls (dual_new_events useDualUpload d')
         = [(Screen, 0), (Screen, 1), (Screen, 2), (Webcam, 0), (Webcam, 1)]
     \<and> dual_state d' = Dual_Completed"
  by (simp add: dual_eval)

lemma stream_calls_all:
  "stream_calls s evs = map snd (filter (\<lambda>p. fst p = s) (all_stream_calls evs))"
  by (induction evs rule: all_stream_calls.induct) simp_all

section \<open>Properties of the upload manager\<close>

lemma um_trace_log [simp]: "um_trace (um_log e s) = um_trace s @ [e]"
  by (simp add: um_log_def)

lemma um_fields_log [simp]:
  "um_status (um_log e s) = um_status s"
  "um_uploadedBytes (um_log e s) = um_uploadedBytes s"
  "um_errorMessage (um_log e s) = um_errorMessage s"
  by (simp_all add: um_log_def)
















text \<open>
  The transport of the hook with a token that is no number: the budget is not above any
  attempt, so no request is made and the error after the loop is thrown.
\<close>

lemma uploadChunk_no_budget:
  "uploadChunk rid chunk i c tot (Some 0) fetch =
     \<lparr>outcome = Inl ''Chunk upload failed'', requests = 0, delays = []\<rparr>"
  by (simp add: uploadChunk_def)



lemma early_done_dual_run:
  "\<exists>r d'. dual_upload early_done_dual_backend [True] payload5 payload3 (Some dual_options) useDualUpload
        = Some (r, d')
     \<and> dual_complete_calls (dual_new_events useDualUpload d') = [''rec-2'']
     \<and> all_stream_calls (dual_new_events useDualUpload d')
         = [(Screen, 0), (Webcam, 0), (Webcam, 1)]
     \<and> dual_state d' = Dual_Completed"
  by (simp add: dual_eval early_done_dual_backend_def screen_done_at_once_def)

section \<open>Properties of \<^verbatim>\<open>resume\<close>\<close>

lemma uploadChunks_closed:
  "0 < c \<Longrightarrow>
   uploadChunks be blob rid c (enat i) tok cb h =
     Some (uploadChunks_loop be cb rid (map (nth_chunk blob c) [0..<ceil_div (length blob) c])
             c (length blob) tok i h)"
  by (simp add: uploadChunks_def sliceBlobIntoChunks_closed)

lemma calc_below_chunk_count:
  assumes c: "0 < c" and a: "a < S"
  shows "\<exists>k. calculateStartingChunkIndex a c = enat k \<and> k < ceil_div S c \<and> k = a div c"
proof -
  have "(a div c) * c \<le> a" by simp
  then have "(a div c) * c < S" using a by (rule le_less_trans)
  then have "a div c < ceil_div S c" using c by (simp add: ceil_div_gt_iff)
  then show ?thesis using c by (auto simp: calculateStartingChunkIndex_def zero_enat_def)
qed

lemma calc_finite: "0 < c \<Longrightarrow> calculateStartingChunkIndex a c = enat (a div c)"
  by (simp add: calculateStartingChunkIndex_def zero_enat_def)

lemma complete_and_clear_shape:
  "complete_and_clear be rid sz h = (r, h') \<Longrightarrow>
   (case completeVideoUpload be rid sz of
      Inl e \<Rightarrow> r = Inl e
        \<and> trace h' = trace h @ [SetState Completing, CompleteCall rid sz]
        \<and> state h' = Completing \<and> sessionStorage h' = sessionStorage h
    | Inr cr \<Rightarrow> r = Inr (complete_recordingId cr, complete_playbackUrl cr)
        \<and> trace h' = trace h @ [SetState Completing, CompleteCall rid sz, SetState Completed]
        \<and> state h' = Completed \<and> sessionStorage h' = None)"
  by (auto simp: complete_and_clear_def Let_def clearRecordingId_def split: sum.splits)

text \<open>The events after the walk, as a function of how the walk and the completion call end.\<close>

lemma resume_continue:
  assumes auth: "isAuthenticated be" and tok: "getAccessToken be = Inr tok"
    and st: "getUploadStatus be rid = Inr status"
    and part: "status_uploadedBytes status < status_fileSize status"
    and c: "0 < status_chunkSize status"
  shows "\<exists>r h' j rest.
       resume be rid blob h = Some (r, h')
     \<and> status_uploadedBytes status div status_chunkSize status \<le> j
     \<and> (status_uploadedBytes status div status_chunkSize status
           < ceil_div (length blob) (status_chunkSize status)
         \<longrightarrow> status_uploadedBytes status div status_chunkSize status < j
             \<and> j \<le> ceil_div (length blob) (status_chunkSize status))
     \<and> new_events h h' =
          [SetState Initializing, StatusCall rid, SetState Uploading]
          @ concat (map (chunk_events be rid
                (map (nth_chunk blob (status_chunkSize status))
                   [0..<ceil_div (length blob) (status_chunkSize status)])
                (status_chunkSize status) (length blob) tok)
              [status_uploadedBytes status div status_chunkSize status..<j])
          @ rest
     \<and> (rest = [SetState Error] \<and> state h' = Error \<and> sessionStorage h' = sessionStorage h
        \<or> rest = [SetState Completing, CompleteCall rid (length blob), SetState Error]
            \<and> state h' = Error \<and> sessionStorage h' = sessionStorage h
        \<or> rest = [SetState Completing, CompleteCall rid (length blob), SetState Completed]
            \<and> state h' = Completed \<and> sessionStorage h' = None)"
proof -
  let ?c = "status_chunkSize status" and ?S = "length blob"
  let ?k = "status_uploadedBytes status div status_chunkSize status"
  let ?chunks = "map (nth_chunk blob ?c) [0..<ceil_div ?S ?c]"
  let ?h0 = "h\<lparr>error := None, recordingId := Some rid\<rparr>"
  let ?h2 = "setState Uploading (log (StatusCall rid) (setState Initializing ?h0))"
  obtain r0 h3 where walk:
    "uploadChunks_loop be (Some progress_callback) rid ?chunks ?c ?S tok ?k ?h2 = (r0, h3)"
    by (cases "uploadChunks_loop be (Some progress_callback) rid ?chunks ?c ?S tok ?k ?h2")
  have body: "resume_body be rid blob ?h0 =
      Some (case r0 of Inl e \<Rightarrow> (Inl e, h3) | Inr u \<Rightarrow> complete_and_clear be rid ?S h3)"
    using tok st part c walk
    by (simp add: resume_body_def Let_def uploadChunks_closed calc_finite split: sum.split)
  from uploadChunks_loop_shape [OF walk]
  obtain j where j: "?k \<le> j" "?k < length ?chunks \<longrightarrow> ?k < j \<and> j \<le> length ?chunks"
    "trace h3 = trace ?h2 @ concat (map (chunk_events be rid ?chunks ?c ?S tok) [?k..<j])"
    "state h3 = state ?h2" "sessionStorage h3 = sessionStorage ?h2"
    by blast
  have tr2: "trace ?h2 = trace h @ [SetState Initializing, StatusCall rid, SetState Uploading]"
    by simp
  have ss2: "sessionStorage ?h2 = sessionStorage h" by simp
  show ?thesis
  proof (cases r0)
    case (Inl e)
    then have res: "resume be rid blob h = Some (Inl e, catch_error e h3)"
      using auth body by (simp add: resume_def Let_def)
    have "trace (catch_error e h3) = trace h @ [SetState Initializing, StatusCall rid, SetState Uploading]
        @ concat (map (chunk_events be rid ?chunks ?c ?S tok) [?k..<j]) @ [SetState Error]"
      using j(3) tr2 by (simp add: catch_error_def)
    then have "new_events h (catch_error e h3) = [SetState Initializing, StatusCall rid, SetState Uploading]
        @ concat (map (chunk_events be rid ?chunks ?c ?S tok) [?k..<j]) @ [SetState Error]"
      by (rule new_events_append)
    moreover have "state (catch_error e h3) = Error" "sessionStorage (catch_error e h3) = sessionStorage h"
      using j(5) ss2 by (simp_all add: catch_error_def)
    ultimately show ?thesis using res j(1,2) by (intro exI conjI) (assumption | simp)+
  next
    case (Inr u)
    obtain r1 h4 where cc: "complete_and_clear be rid ?S h3 = (r1, h4)"
      by (cases "complete_and_clear be rid ?S h3")
    note sh = complete_and_clear_shape [OF cc]
    show ?thesis
    proof (cases "completeVideoUpload be rid ?S")
      case (Inl e)
      with sh have r1: "r1 = Inl e" and t4: "trace h4 = trace h3 @ [SetState Completing, CompleteCall rid ?S]"
        and s4: "sessionStorage h4 = sessionStorage h3" by simp_all
      have res: "resume be rid blob h = Some (Inl e, catch_error e h4)"
        using auth body Inr cc r1 by (simp add: resume_def Let_def)
      have "trace (catch_error e h4) = trace h @ [SetState Initializing, StatusCall rid, SetState Uploading]
          @ concat (map (chunk_events be rid ?chunks ?c ?S tok) [?k..<j])
          @ [SetState Completing, CompleteCall rid ?S, SetState Error]"
        using j(3) tr2 t4 by (simp add: catch_error_def)
      then have "new_events h (catch_error e h4) = [SetState Initializing, StatusCall rid, SetState Uploading]
          @ concat (map (chunk_events be rid ?chunks ?c ?S tok) [?k..<j])
          @ [SetState Completing, CompleteCall rid ?S, SetState Error]"
        by (rule new_events_append)
      moreover have "state (catch_error e h4) = Error" "sessionStorage (catch_error e h4) = sessionStorage h"
        using j(5) ss2 s4 by (simp_all add: catch_error_def)
      ultimately show ?thesis using res j(1,2) by (intro exI conjI) (assumption | simp)+
    next
      case (Inr cr)
      with sh have r1: "r1 = Inr (complete_recordingId cr, complete_playbackUrl cr)"
        and t4: "trace h4 = trace h3 @ [SetState Completing, CompleteCall rid ?S, SetState Completed]"
        and s4: "sessionStorage h4 = None" "state h4 = Completed" by simp_all
      have res: "resume be rid blob h = Some (r1, h4)"
        using auth body \<open>r0 = Inr u\<close> cc r1 by (simp add: resume_def Let_def)
      have "trace h4 = trace h @ [SetState Initializing, StatusCall rid, SetState Uploading]
          @ concat (map (chunk_events be rid ?chunks ?c ?S tok) [?k..<j])
          @ [SetState Completing, CompleteCall rid ?S, SetState Completed]"
        using j(3) tr2 t4 by simp
      then have "new_events h h4 = [SetState Initializing, StatusCall rid, SetState Uploading]
          @ concat (map (chunk_events be rid ?chunks ?c ?S tok) [?k..<j])
          @ [SetState Completing, CompleteCall rid ?S, SetState Completed]"
        by (rule new_events_append)
      then show ?thesis using res j(1,2) s4 by (intro exI conjI) (assumption | simp)+
    qed
  qed
qed

lemma resume_already_complete:
  assumes auth: "isAuthenticated be" and tok: "getAccessToken be = Inr tok"
    and st: "getUploadStatus be rid = Inr status"
    and full: "status_fileSize status \<le> status_uploadedBytes status"
  shows "\<exists>r h'. resume be rid blob h = Some (r, h')
     \<and> new_events h h' =
         [SetState Initializing, StatusCall rid, SetState Completed,
          SetProgress (Some \<lparr>uploadedBytes = status_fileSize status,
                             totalBytes = status_fileSize status, percentage = 100\<rparr>),
          CompleteCall rid (status_fileSize status)]
         @ (case completeVideoUpload be rid (status_fileSize status) of
              Inl e \<Rightarrow> [SetState Error] | Inr cr \<Rightarrow> [])
     \<and> sessionStorage h' = sessionStorage h
     \<and> state h' = (case completeVideoUpload be rid (status_fileSize status) of
              Inl e \<Rightarrow> Error | Inr cr \<Rightarrow> Completed)"
  using assms
  by (cases "completeVideoUpload be rid (status_fileSize status)")
     (simp_all add: resume_def resume_body_def Let_def catch_error_def new_events_def)

lemma good_backend_simps [simp]:
  "isAuthenticated (good_backend a c)" "getAccessToken (good_backend a c) = Inr ''token''"
  "getUploadStatus (good_backend a c) rid =
     Inr \<lparr>status_uploadedBytes = a, status_chunkSize = c, status_fileSize = 7\<rparr>"
  "uploadChunkFn (good_backend a c) = ack_cumulative"
  "completeVideoUpload (good_backend a c) rid n =
     Inr \<lparr>complete_recordingId = rid, complete_playbackUrl = Some ''https://play/rec-1''\<rparr>"
  "initResumableUpload (good_backend a c) n = Inr \<lparr>init_recordingId = ''rec-1'', init_chunkSize = c\<rparr>"
  by (simp_all add: good_backend_def)

text \<open>
  Scenario D run on the model: a session mounted with a stored identity is resumed, and
  the backend reports every byte acknowledged.
\<close>

lemma resume_scenario_D:
  "resume (good_backend 7 3) ''rec-1'' payload7 (useResumableUpload (Some ''rec-1'')) =
     Some (Inr (''rec-1'', Some ''https://play/rec-1''),
       \<lparr>state = Completed,
        progress = Some \<lparr>uploadedBytes = 7, totalBytes = 7, percentage = 100\<rparr>,
        error = None, recordingId = Some ''rec-1'', playbackUrl = Some ''https://play/rec-1'',
        sessionStorage = Some ''rec-1'',
        trace = [SetState Initializing, StatusCall ''rec-1'', SetState Completed,
                 SetProgress (Some \<lparr>uploadedBytes = 7, totalBytes = 7, percentage = 100\<rparr>),
                 CompleteCall ''rec-1'' 7]\<rparr>)"
  by (simp add: resume_def resume_body_def useResumableUpload_def truthy_def Let_def
        setState_def setProgress_def log_def)

section \<open>The resume calculator\<close>

text \<open>
  Claim C2. For every chunk size \<open>c > 0\<close> the resume calculator returns \<open>0\<close> when no
  byte is acknowledged and \<open>floor(a / c)\<close> otherwise. With chunk size 8,000,000 it
  returns index 1 for 8,000,000 acknowledged bytes (on a chunk boundary: the next chunk)
  and index 0 for 4,000,000 acknowledged bytes (inside chunk 0: the same chunk again).
\<close>

theorem resume_calculator_formula:
  "(0 < c \<longrightarrow> calculateStartingChunkIndex a c = (if a = 0 then 0 else enat (a div c)))
   \<and> calculateStartingChunkIndex 8000000 8000000 = 1
   \<and> calculateStartingChunkIndex 4000000 8000000 = 0"
  by (simp add: calculateStartingChunkIndex_def one_enat_def zero_enat_def)

text \<open>The formula at chunk size 8 and 20 acknowledged bytes.\<close>

theorem resume_calculator_formula_witness:
  "0 < (8::nat) \<and> calculateStartingChunkIndex 20 8 = enat 2"
  using resume_calculator_formula [of 8 20] by simp


text \<open>
  Claim C3. For every payload of size \<open>S\<close>, every chunk size \<open>c > 0\<close> and every
  acknowledged byte count \<open>a\<close> in \<open>[0, S]\<close> reported by the status call: when \<open>a < S\<close>
  the resume calculator returns an index \<open>k\<close> with \<open>k \<le> ceil(S / c) - 1\<close>, which is a
  valid index into the sequence of chunks that the slicer returns; when \<open>a = S\<close>,
  \<^verbatim>\<open>resume\<close> signals "already complete": it goes from \<open>Initializing\<close> to \<open>Completed\<close>
  and hands no chunk to the transport.
\<close>

theorem resume_index_in_range:
  assumes c: "0 < c" and a: "a \<le> length blob"
    and auth: "isAuthenticated be" and tok: "getAccessToken be = Inr tok"
    and st: "getUploadStatus be rid =
        Inr \<lparr>status_uploadedBytes = a, status_chunkSize = c, status_fileSize = length blob\<rparr>"
  shows "(a < length blob \<longrightarrow>
           (\<exists>k chunks. calculateStartingChunkIndex a c = enat k
              \<and> sliceBlobIntoChunks blob c = Some chunks
              \<and> k \<le> ceil_div (length blob) c - 1 \<and> k < length chunks))
       \<and> (a = length blob \<longrightarrow>
           (\<exists>r h'. resume be rid blob h = Some (r, h')
              \<and> sent_chunks (new_events h h') = []
              \<and> hd (state_changes (new_events h h')) = Initializing
              \<and> hd (tl (state_changes (new_events h h'))) = Completed))"
proof (intro conjI impI)
  assume "a < length blob"
  from calc_below_chunk_count [OF c this]
  obtain k where k: "calculateStartingChunkIndex a c = enat k" "k < ceil_div (length blob) c"
    by blast
  have "sliceBlobIntoChunks blob c = Some (map (nth_chunk blob c) [0..<ceil_div (length blob) c])"
    using c by (rule sliceBlobIntoChunks_closed)
  with k show "\<exists>k chunks. calculateStartingChunkIndex a c = enat k
      \<and> sliceBlobIntoChunks blob c = Some chunks
      \<and> k \<le> ceil_div (length blob) c - 1 \<and> k < length chunks"
    by (intro exI [of _ k] exI [of _ "map (nth_chunk blob c) [0..<ceil_div (length blob) c]"]) auto
next
  assume full: "a = length blob"
  let ?status = "\<lparr>status_uploadedBytes = a, status_chunkSize = c, status_fileSize = length blob\<rparr>"
  have "status_fileSize ?status \<le> status_uploadedBytes ?status" using full by simp
  from resume_already_complete [OF auth tok st this, of blob h]
  obtain r h' where "resume be rid blob h = Some (r, h')"
    and "new_events h h' =
         [SetState Initializing, StatusCall rid, SetState Completed,
          SetProgress (Some \<lparr>uploadedBytes = length blob, totalBytes = length blob, percentage = 100\<rparr>),
          CompleteCall rid (length blob)]
         @ (case completeVideoUpload be rid (length blob) of
              Inl e \<Rightarrow> [SetState Error] | Inr cr \<Rightarrow> [])"
    by auto
  then show "\<exists>r h'. resume be rid blob h = Some (r, h')
      \<and> sent_chunks (new_events h h') = []
      \<and> hd (state_changes (new_events h h')) = Initializing
      \<and> hd (tl (state_changes (new_events h h'))) = Completed"
    by (intro exI [of _ r] exI [of _ h']) (simp split: sum.split)
qed

text \<open>
  The claim at a payload of seven bytes and chunk size three, once with four bytes
  acknowledged (inside the range) and once with all seven (already complete).
\<close>

theorem resume_index_in_range_witness:
  "0 < (3::nat) \<and> 4 \<le> length payload7 \<and> 7 \<le> length payload7
   \<and> isAuthenticated (good_backend 4 3) \<and> getAccessToken (good_backend 4 3) = Inr ''token''
   \<and> getUploadStatus (good_backend 4 3) ''rec-1'' =
        Inr \<lparr>status_uploadedBytes = 4, status_chunkSize = 3, status_fileSize = length payload7\<rparr>
   \<and> isAuthenticated (good_backend 7 3) \<and> getAccessToken (good_backend 7 3) = Inr ''token''
   \<and> getUploadStatus (good_backend 7 3) ''rec-1'' =
        Inr \<lparr>status_uploadedBytes = 7, status_chunkSize = 3, status_fileSize = length payload7\<rparr>
   \<and> 4 < length payload7
   \<and> (\<exists>k chunks. calculateStartingChunkIndex 4 3 = enat k
         \<and> sliceBlobIntoChunks payload7 3 = Some chunks
         \<and> k \<le> ceil_div (length payload7) 3 - 1 \<and> k < length chunks)
   \<and> 7 = length payload7
   \<and> (\<exists>r h'. resume (good_backend 7 3) ''rec-1'' payload7 (useResumableUpload (Some ''rec-1''))
                 = Some (r, h')
         \<and> sent_chunks (new_events (useResumableUpload (Some ''rec-1'')) h') = []
         \<and> hd (state_changes (new_events (useResumableUpload (Some ''rec-1'')) h')) = Initializing
         \<and> hd (tl (state_changes (new_events (useResumableUpload (Some ''rec-1'')) h'))) = Completed)"
proof -
  have len: "length payload7 = 7" by (simp add: payload7_def)
  have 1: "0 < (3::nat)" and 2: "4 \<le> length payload7" and 6: "4 < length payload7"
    and w2: "7 \<le> length payload7" and w6: "7 = length payload7"
    by (simp_all add: len)
  have 3: "isAuthenticated (good_backend 4 3)" and 4: "getAccessToken (good_backend 4 3) = Inr ''token''"
    and w3: "isAuthenticated (good_backend 7 3)" and w4: "getAccessToken (good_backend 7 3) = Inr ''token''"
    by simp_all
  have 5: "getUploadStatus (good_backend 4 3) ''rec-1'' =
        Inr \<lparr>status_uploadedBytes = 4, status_chunkSize = 3, status_fileSize = length payload7\<rparr>"
    and w5: "getUploadStatus (good_backend 7 3) ''rec-1'' =
        Inr \<lparr>status_uploadedBytes = 7, status_chunkSize = 3, status_fileSize = length payload7\<rparr>"
    by (simp_all add: len)
  from resume_index_in_range [OF 1 2 3 4 5] 6
  have A: "\<exists>k chunks. calculateStartingChunkIndex 4 3 = enat k
         \<and> sliceBlobIntoChunks payload7 3 = Some chunks
         \<and> k \<le> ceil_div (length payload7) 3 - 1 \<and> k < length chunks"
    by blast
  from resume_index_in_range [OF 1 w2 w3 w4 w5, of "useResumableUpload (Some ''rec-1'')"] w6
  have B: "\<exists>r h'. resume (good_backend 7 3) ''rec-1'' payload7 (useResumableUpload (Some ''rec-1''))
                 = Some (r, h')
         \<and> sent_chunks (new_events (useResumableUpload (Some ''rec-1'')) h') = []
         \<and> hd (state_changes (new_events (useResumableUpload (Some ''rec-1'')) h')) = Initializing
         \<and> hd (tl (state_changes (new_events (useResumableUpload (Some ''rec-1'')) h'))) = Completed"
    by blast
  from 1 2 w2 3 4 5 w3 w4 w5 6 A w6 B show ?thesis by blast
qed

section \<open>Resuming a session\<close>

text \<open>
  Claim C5 as stated says that a resume which finds every byte acknowledged enters the
  \<open>Completing\<close> state. In Scenario D the session is mounted in \<open>Paused\<close> and the states
  set by \<^verbatim>\<open>resume\<close> are \<open>Initializing\<close> and then \<open>Completed\<close>; \<open>Completing\<close> is never
  set, although the completion call is made.
\<close>

theorem resume_short_circuit_counterexample:
  "state (useResumableUpload (Some ''rec-1'')) = Paused
   \<and> state_changes (trace (snd (the (resume (good_backend 7 3) ''rec-1'' payload7
        (useResumableUpload (Some ''rec-1'')))))) = [Initializing, Completed]
   \<and> Completing \<notin> set (state_changes (trace (snd (the (resume (good_backend 7 3) ''rec-1'' payload7
        (useResumableUpload (Some ''rec-1'')))))))
   \<and> complete_calls (trace (snd (the (resume (good_backend 7 3) ''rec-1'' payload7
        (useResumableUpload (Some ''rec-1'')))))) = [(''rec-1'', 7)]"
  by (simp add: resume_scenario_D) (simp add: useResumableUpload_def truthy_def Let_def)

text \<open>
  Claim C5 (amended). \<^verbatim>\<open>resume\<close> queries the backend status. When the backend reports
  at least as many acknowledged bytes as the file size, the session sets the state
  \<open>Completed\<close> directly, sets the progress to the full size, and issues the completion
  call with the reported file size; it hands no chunk to the transport and enters
  neither \<open>Uploading\<close> nor \<open>Completing\<close>. Otherwise (with a positive chunk size) it
  computes the resume chunk index \<open>k\<close>, enters \<open>Uploading\<close>, and the chunks it hands to
  the transport are \<open>k, k + 1, \<dots>\<close> in this order, starting with \<open>k\<close> whenever the payload
  has a chunk \<open>k\<close>.
\<close>

theorem resume_from_status:
  assumes auth: "isAuthenticated be" and tok: "getAccessToken be = Inr tok"
    and st: "getUploadStatus be rid = Inr status"
  shows "(status_fileSize status \<le> status_uploadedBytes status \<longrightarrow>
           (\<exists>r h'. resume be rid blob h = Some (r, h')
              \<and> new_events h h' =
                  [SetState Initializing, StatusCall rid, SetState Completed,
                   SetProgress (Some \<lparr>uploadedBytes = status_fileSize status,
                                      totalBytes = status_fileSize status, percentage = 100\<rparr>),
                   CompleteCall rid (status_fileSize status)]
                  @ (case completeVideoUpload be rid (status_fileSize status) of
                       Inl e \<Rightarrow> [SetState Error] | Inr cr \<Rightarrow> [])
              \<and> sent_chunks (new_events h h') = []))
       \<and> (status_uploadedBytes status < status_fileSize status \<and> 0 < status_chunkSize status \<longrightarrow>
           (\<exists>r h' k j rest. resume be rid blob h = Some (r, h')
              \<and> calculateStartingChunkIndex (status_uploadedBytes status) (status_chunkSize status) = enat k
              \<and> new_events h h' = [SetState Initializing, StatusCall rid, SetState Uploading] @ rest
              \<and> sent_chunks rest = [k..<j]
              \<and> (k < ceil_div (length blob) (status_chunkSize status) \<longrightarrow> k < j)))"
proof (intro conjI impI)
  assume full: "status_fileSize status \<le> status_uploadedBytes status"
  from resume_already_complete [OF auth tok st full, of blob h]
  obtain r h' where r: "resume be rid blob h = Some (r, h')"
    and ev: "new_events h h' =
         [SetState Initializing, StatusCall rid, SetState Completed,
          SetProgress (Some \<lparr>uploadedBytes = status_fileSize status,
                             totalBytes = status_fileSize status, percentage = 100\<rparr>),
          CompleteCall rid (status_fileSize status)]
         @ (case completeVideoUpload be rid (status_fileSize status) of
              Inl e \<Rightarrow> [SetState Error] | Inr cr \<Rightarrow> [])"
    by blast
  have "sent_chunks (new_events h h') = []"
    unfolding ev by (simp split: sum.split)
  with r ev show "\<exists>r h'. resume be rid blob h = Some (r, h')
      \<and> new_events h h' =
          [SetState Initializing, StatusCall rid, SetState Completed,
           SetProgress (Some \<lparr>uploadedBytes = status_fileSize status,
                              totalBytes = status_fileSize status, percentage = 100\<rparr>),
           CompleteCall rid (status_fileSize status)]
          @ (case completeVideoUpload be rid (status_fileSize status) of
               Inl e \<Rightarrow> [SetState Error] | Inr cr \<Rightarrow> [])
      \<and> sent_chunks (new_events h h') = []"
    by blast
next
  assume "status_uploadedBytes status < status_fileSize status \<and> 0 < status_chunkSize status"
  then have part: "status_uploadedBytes status < status_fileSize status"
    and c: "0 < status_chunkSize status" by simp_all
  let ?c = "status_chunkSize status" and ?k = "status_uploadedBytes status div status_chunkSize status"
  let ?chunks = "map (nth_chunk blob ?c) [0..<ceil_div (length blob) ?c]"
  from resume_continue [OF auth tok st part c, of blob h]
  obtain r h' j rest where r: "resume be rid blob h = Some (r, h')"
    and j: "?k < ceil_div (length blob) ?c \<longrightarrow> ?k < j"
    and ev: "new_events h h' = [SetState Initializing, StatusCall rid, SetState Uploading]
          @ concat (map (chunk_events be rid ?chunks ?c (length blob) tok) [?k..<j]) @ rest"
    and rest: "rest = [SetState Error]
        \<or> rest = [SetState Completing, CompleteCall rid (length blob), SetState Error]
        \<or> rest = [SetState Completing, CompleteCall rid (length blob), SetState Completed]"
    by blast
  let ?rest = "concat (map (chunk_events be rid ?chunks ?c (length blob) tok) [?k..<j]) @ rest"
  have "sent_chunks rest = []" using rest by auto
  then have sc: "sent_chunks ?rest = [?k..<j]"
    by (simp add: sent_chunks_append sent_chunks_walk)
  have k: "calculateStartingChunkIndex (status_uploadedBytes status) ?c = enat ?k"
    using c by (rule calc_finite)
  from r k ev sc j
  show "\<exists>r h' k j rest. resume be rid blob h = Some (r, h')
      \<and> calculateStartingChunkIndex (status_uploadedBytes status) (status_chunkSize status) = enat k
      \<and> new_events h h' = [SetState Initializing, StatusCall rid, SetState Uploading] @ rest
      \<and> sent_chunks rest = [k..<j]
      \<and> (k < ceil_div (length blob) (status_chunkSize status) \<longrightarrow> k < j)"
    by (intro exI [of _ r] exI [of _ h'] exI [of _ ?k] exI [of _ j] exI [of _ ?rest]) simp
qed

text \<open>
  The amended claim in Scenario D (seven of seven bytes acknowledged) and at four of
  seven bytes acknowledged, where the resume starts from chunk 1.
\<close>

theorem resume_from_status_witness:
  "isAuthenticated (good_backend 7 3) \<and> getAccessToken (good_backend 7 3) = Inr ''token''
   \<and> getUploadStatus (good_backend 7 3) ''rec-1'' =
        Inr \<lparr>status_uploadedBytes = 7, status_chunkSize = 3, status_fileSize = 7\<rparr>
   \<and> (7::nat) \<le> 7
   \<and> (\<exists>r h'. resume (good_backend 7 3) ''rec-1'' payload7 (useResumableUpload (Some ''rec-1''))
                 = Some (r, h')
         \<and> new_events (useResumableUpload (Some ''rec-1'')) h' =
              [SetState Initializing, StatusCall ''rec-1'', SetState Completed,
               SetProgress (Some \<lparr>uploadedBytes = 7, totalBytes = 7, percentage = 100\<rparr>),
               CompleteCall ''rec-1'' 7]
         \<and> sent_chunks (new_events (useResumableUpload (Some ''rec-1'')) h') = [])
   \<and> isAuthenticated (good_backend 4 3) \<and> getAccessToken (good_backend 4 3) = Inr ''token''
   \<and> getUploadStatus (good_backend 4 3) ''rec-1'' =
        Inr \<lparr>status_uploadedBytes = 4, status_chunkSize = 3, status_fileSize = 7\<rparr>
   \<and> (4::nat) < 7 \<and> 0 < (3::nat)
   \<and> (\<exists>r h' j rest. resume (good_backend 4 3) ''rec-1'' payload7 (useResumableUpload (Some ''rec-1''))
                 = Some (r, h')
         \<and> calculateStartingChunkIndex 4 3 = enat 1
         \<and> new_events (useResumableUpload (Some ''rec-1'')) h' =
              [SetState Initializing, StatusCall ''rec-1'', SetState Uploading] @ rest
         \<and> sent_chunks rest = [1..<j] \<and> 1 < j)"
proof -
  let ?h = "useResumableUpload (Some ''rec-1'')"
  let ?st7 = "\<lparr>status_uploadedBytes = 7, status_chunkSize = 3, status_fileSize = 7\<rparr>"
  let ?st4 = "\<lparr>status_uploadedBytes = 4, status_chunkSize = 3, status_fileSize = 7\<rparr>"
  have a7: "isAuthenticated (good_backend 7 3)" and t7: "getAccessToken (good_backend 7 3) = Inr ''token''"
    and s7: "getUploadStatus (good_backend 7 3) ''rec-1'' = Inr ?st7"
    and a4: "isAuthenticated (good_backend 4 3)" and t4: "getAccessToken (good_backend 4 3) = Inr ''token''"
    and s4: "getUploadStatus (good_backend 4 3) ''rec-1'' = Inr ?st4"
    by simp_all
  have c4: "calculateStartingChunkIndex 4 3 = enat 1"
    by (simp add: calculateStartingChunkIndex_def)
  have n: "(1::nat) < ceil_div (length payload7) 3"
    by (simp add: payload7_def ceil_div_def)
  from resume_from_status [OF a7 t7 s7, of payload7 ?h]
  have A: "\<exists>r h'. resume (good_backend 7 3) ''rec-1'' payload7 ?h = Some (r, h')
         \<and> new_events ?h h' =
              [SetState Initializing, StatusCall ''rec-1'', SetState Completed,
               SetProgress (Some \<lparr>uploadedBytes = 7, totalBytes = 7, percentage = 100\<rparr>),
               CompleteCall ''rec-1'' 7]
         \<and> sent_chunks (new_events ?h h') = []"
    by simp
  from resume_from_status [OF a4 t4 s4, of payload7 ?h]
  obtain r h' k j rest where B: "resume (good_backend 4 3) ''rec-1'' payload7 ?h = Some (r, h')"
    "calculateStartingChunkIndex 4 3 = enat k"
    "new_events ?h h' = [SetState Initializing, StatusCall ''rec-1'', SetState Uploading] @ rest"
    "sent_chunks rest = [k..<j]" "k < ceil_div (length payload7) 3 \<longrightarrow> k < j"
    by auto
  from B(2) c4 have k: "k = 1" by simp
  from B k n have "\<exists>r h' j rest. resume (good_backend 4 3) ''rec-1'' payload7 ?h = Some (r, h')
         \<and> calculateStartingChunkIndex 4 3 = enat 1
         \<and> new_events ?h h' = [SetState Initializing, StatusCall ''rec-1'', SetState Uploading] @ rest
         \<and> sent_chunks rest = [1..<j] \<and> 1 < j"
    by auto
  with A a7 t7 s7 a4 t4 s4 show ?thesis by simp
qed

section \<open>The stored identity\<close>

text \<open>
  Claim C6 says that a session reaching \<open>Completed\<close> clears the stored identity. In
  Scenario D the resumed session ends in \<open>Completed\<close> without an error, after a
  successful completion call, and \<^verbatim>\<open>sessionStorage\<close> still holds the identity: this
  path of \<^verbatim>\<open>resume\<close> returns without calling \<^verbatim>\<open>clearRecordingId\<close>. A hook mounted
  afterwards finds the identity and starts in \<open>Paused\<close>.
\<close>

theorem resume_completed_keeps_identity:
  "state (snd (the (resume (good_backend 7 3) ''rec-1'' payload7
       (useResumableUpload (Some ''rec-1''))))) = Completed
   \<and> error (snd (the (resume (good_backend 7 3) ''rec-1'' payload7
       (useResumableUpload (Some ''rec-1''))))) = None
   \<and> sessionStorage (snd (the (resume (good_backend 7 3) ''rec-1'' payload7
       (useResumableUpload (Some ''rec-1''))))) = Some ''rec-1''
   \<and> state (useResumableUpload (sessionStorage (snd (the (resume (good_backend 7 3) ''rec-1'' payload7
       (useResumableUpload (Some ''rec-1''))))))) = Paused"
  by (simp add: resume_scenario_D) (simp add: useResumableUpload_def truthy_def Let_def)


section \<open>The chunk transport\<close>

text \<open>
  Claim C4 says that a failing chunk is retried up to three times, with delays of one,
  two and four seconds between attempts, and that the last error is surfaced. With the
  default budget and a network on which every request fails, \<^verbatim>\<open>uploadChunk\<close> makes
  three requests in all (the first attempt and two retries), sleeps one second and then
  two seconds, and throws the error of the third request. No third retry is made and
  the delay of four seconds never happens.
\<close>

theorem uploadChunk_three_failures:
  "uploadChunk ''rec-1'' [1, 2, 3] 0 3 7 None failing_fetch =
     \<lparr>outcome = Inl ''third failure'', requests = 3, delays = [1000, 2000]\<rparr>"
  by (simp add: uploadChunk_def failing_fetch_def)

section \<open>Progress\<close>




section \<open>The end of the walk\<close>





section \<open>The dual session\<close>



text \<open>
  Claim C8 as stated says that the completion call is never issued before both streams
  have finished uploading all of their chunks. The walk of a stream leaves its loop at
  the first acknowledgment that says \<open>done\<close>, and the completion call follows the two
  walks whatever they left unsent. Here the screen recording has three chunks and the
  backend acknowledges the first of them with \<open>done\<close>: the session sends screen chunk
  0 only, then the two chunks of the webcam stream, issues the completion call and ends
  in \<^verbatim>\<open>completed\<close>, with the screen chunks 1 and 2 never sent.
\<close>

theorem completion_before_all_chunks_counterexample:
  "sliceBlobIntoChunks payload5 2 = Some [[1, 2], [3, 4], [5]]
   \<and> stream_calls Screen (dual_new_events useDualUpload (snd (the
        (dual_upload early_done_dual_backend [True] payload5 payload3 (Some dual_options)
           useDualUpload)))) = [0]
   \<and> stream_calls Webcam (dual_new_events useDualUpload (snd (the
        (dual_upload early_done_dual_backend [True] payload5 payload3 (Some dual_options)
           useDualUpload)))) = [0, 1]
   \<and> dual_complete_calls (dual_new_events useDualUpload (snd (the
        (dual_upload early_done_dual_backend [True] payload5 payload3 (Some dual_options)
           useDualUpload)))) = [''rec-2'']
   \<and> dual_state (snd (the
        (dual_upload early_done_dual_backend [True] payload5 payload3 (Some dual_options)
           useDualUpload))) = Dual_Completed"
proof -
  from early_done_dual_run obtain r d' where
    run: "dual_upload early_done_dual_backend [True] payload5 payload3 (Some dual_options)
        useDualUpload = Some (r, d')"
    and cc: "dual_complete_calls (dual_new_events useDualUpload d') = [''rec-2'']"
    and order: "all_stream_calls (dual_new_events useDualUpload d')
         = [(Screen, 0), (Webcam, 0), (Webcam, 1)]"
    and st: "dual_state d' = Dual_Completed"
    by (elim exE conjE)
  have s: "stream_calls Screen (dual_new_events useDualUpload d') = [0]"
    and w: "stream_calls Webcam (dual_new_events useDualUpload d') = [0, 1]"
    by (simp_all add: stream_calls_all order)
  show ?thesis
    unfolding run using payload5_chunks s w cc st by simp
qed

text \<open>
  Claim C8 (amended). A dual upload session never issues the completion call before the
  chunk walks of both the screen stream and the webcam stream have each individually
  ended without an error: each walk has sent its chunks in order from chunk 0, every
  one of them acknowledged, up to the last chunk of the stream or to the first chunk
  acknowledged with \<open>done\<close>, after which it sends no more. Whatever the order in which
  the responses of the two streams arrive, no chunk call of either stream comes after
  the completion call, and it is the only completion call. The two walks proceed
  independently: nothing relates the chunk index of one walk to that of the other.
\<close>

theorem completion_after_both_streams:
  assumes run: "dual_upload be sched screenBlob webcamBlob options d = Some (r, d')"
    and called: "dual_complete_calls (dual_new_events d d') \<noteq> []"
  shows "\<exists>opts position initResult before after.
       options = Some opts \<and> webcamPosition opts = Some position
     \<and> initDualUpload be (length screenBlob) (length webcamBlob)
           (webcamPositionToApiFormat position) (duration opts) = Inr initResult
     \<and> dual_new_events d d' = before @ DualCompleteCall (init_recordingId initResult) # after
     \<and> walk_ended (uploadScreenChunkFn be) (init_recordingId initResult) screenBlob
           (init_chunkSize initResult) (stream_calls Screen before)
     \<and> walk_ended (uploadWebcamChunkFn be) (init_recordingId initResult) webcamBlob
           (init_chunkSize initResult) (stream_calls Webcam before)
     \<and> stream_calls Screen after = [] \<and> stream_calls Webcam after = []
     \<and> dual_complete_calls before = [] \<and> dual_complete_calls after = []"
proof -
  from run called obtain opts where o: "options = Some opts"
    by (cases options) (auto simp: dual_upload_def)
  have dur: "duration opts \<noteq> 0"
    using run called o by (auto simp: dual_upload_def)
  from run called o dur obtain position where pos: "webcamPosition opts = Some position"
    by (cases "webcamPosition opts") (auto simp: dual_upload_def)
  let ?d0 = "(dual_setProgress None (d\<lparr>dual_error := None\<rparr>))
          \<lparr>dual_recordingId := None, dual_playbackUrl := None\<rparr>"
  have t0: "dual_trace ?d0 = dual_trace d @ [DualSetProgress None]" by simp
  have body: "dual_upload_body be sched screenBlob webcamBlob opts position ?d0 = Some (r, d')"
    using run o dual_upload_options [OF dur pos, of be sched screenBlob webcamBlob d] by simp
  let ?init = "initDualUpload be (length screenBlob) (length webcamBlob)
                 (webcamPositionToApiFormat position) (duration opts)"
  obtain initResult where init: "?init = Inr initResult"
  proof (cases ?init)
    case (Inl e)
    let ?d1 = "dual_log (DualInitCall (length screenBlob) (length webcamBlob))
                 (dual_setState Dual_Initializing ?d0)"
    have "d' = dual_catch e ?d1" using body Inl by (simp add: dual_upload_body_def Let_def)
    then have "dual_trace d' = dual_trace d @ [DualSetProgress None, DualSetState Dual_Initializing,
        DualInitCall (length screenBlob) (length webcamBlob), DualSetState Dual_Error]"
      by (simp add: dual_catch_def)
    then have "dual_new_events d d' = [DualSetProgress None, DualSetState Dual_Initializing,
        DualInitCall (length screenBlob) (length webcamBlob), DualSetState Dual_Error]"
      by (rule dual_new_events_append)
    then have False using called by simp
    then show ?thesis ..
  next
    case (Inr res)
    then show ?thesis by (rule that)
  qed
  let ?rid = "init_recordingId initResult" and ?c = "init_chunkSize initResult"
  obtain screenWalk where sw: "uploadStreamChunks screenBlob ?rid ?c (uploadScreenChunkFn be) = Some screenWalk"
    using body init by (cases "uploadStreamChunks screenBlob ?rid ?c (uploadScreenChunkFn be)")
      (simp_all add: dual_upload_body_def Let_def)
  obtain webcamWalk where ww: "uploadStreamChunks webcamBlob ?rid ?c (uploadWebcamChunkFn be) = Some webcamWalk"
    using body init sw by (cases "uploadStreamChunks webcamBlob ?rid ?c (uploadWebcamChunkFn be)")
      (simp_all add: dual_upload_body_def Let_def)
  let ?p0 = "Some \<lparr>screen = \<lparr>uploadedBytes = 0, totalBytes = length screenBlob, percentage = 0\<rparr>,
                   webcam = \<lparr>uploadedBytes = 0, totalBytes = length webcamBlob, percentage = 0\<rparr>\<rparr>"
  let ?pre = "[DualSetState Dual_Initializing, DualInitCall (length screenBlob) (length webcamBlob),
             DualSetState Dual_Uploading, DualSetProgress ?p0]"
  from dual_upload_body_shape [OF init sw ww, of sched ?d0]
  obtain r1 d1 new rest where body1:
      "dual_upload_body be sched screenBlob webcamBlob opts position ?d0 = Some (r1, d1)"
    and tr: "dual_trace d1 = dual_trace ?d0 @ ?pre @ new @ rest"
    and scs: "stream_calls Screen new = map walk_index screenWalk"
    and scw: "stream_calls Webcam new = map walk_index webcamWalk"
    and cc: "dual_complete_calls new = []"
    and alt: "(\<exists>e\<in>set screenWalk \<union> set webcamWalk. is_threw e) \<and> rest = []
        \<or> (\<forall>e\<in>set screenWalk \<union> set webcamWalk. \<not> is_threw e)
          \<and> (rest = [DualSetState Dual_Completing, DualCompleteCall ?rid, DualSetState Dual_Error]
             \<or> rest = [DualSetState Dual_Completing, DualCompleteCall ?rid, DualSetState Dual_Completed])"
    by blast
  have d1: "d1 = d'" using body body1 by simp
  have "dual_trace d' = dual_trace d @ ([DualSetProgress None] @ ?pre @ new @ rest)"
    using tr t0 d1 by simp
  then have ne: "dual_new_events d d' = [DualSetProgress None] @ ?pre @ new @ rest"
    by (rule dual_new_events_append)
  have rest_ne: "rest \<noteq> []"
  proof
    assume "rest = []"
    then have "dual_complete_calls (dual_new_events d d') = []"
      unfolding ne using cc by (simp add: dual_complete_calls_append)
    then show False using called by simp
  qed
  with alt have clean: "\<forall>e\<in>set screenWalk \<union> set webcamWalk. \<not> is_threw e"
    and rest: "rest = [DualSetState Dual_Completing, DualCompleteCall ?rid, DualSetState Dual_Error]
             \<or> rest = [DualSetState Dual_Completing, DualCompleteCall ?rid, DualSetState Dual_Completed]"
    by blast+
  have fs: "walk_ended (uploadScreenChunkFn be) ?rid screenBlob ?c (map walk_index screenWalk)"
    using sw clean by (intro clean_walk_ended) auto
  have fw: "walk_ended (uploadWebcamChunkFn be) ?rid webcamBlob ?c (map walk_index webcamWalk)"
    using ww clean by (intro clean_walk_ended) auto
  let ?before = "[DualSetProgress None] @ ?pre @ new @ [DualSetState Dual_Completing]"
  from rest obtain final where final: "rest = [DualSetState Dual_Completing, DualCompleteCall ?rid, DualSetState final]"
    by blast
  let ?after = "[DualSetState final]"
  have split: "dual_new_events d d' = ?before @ DualCompleteCall ?rid # ?after"
    unfolding ne final by simp
  have b1: "stream_calls Screen ?before = map walk_index screenWalk"
    using scs by (simp add: stream_calls_append)
  have b2: "stream_calls Webcam ?before = map walk_index webcamWalk"
    using scw by (simp add: stream_calls_append)
  have b3: "dual_complete_calls ?before = []"
    using cc by (simp add: dual_complete_calls_append)
  have a1: "stream_calls Screen ?after = []" "stream_calls Webcam ?after = []"
    "dual_complete_calls ?after = []" by simp_all
  show ?thesis
    using o pos init split fs fw a1 b3 unfolding b1 [symmetric] b2 [symmetric]
    by (intro exI [of _ opts] exI [of _ position] exI [of _ initResult]
          exI [of _ ?before] exI [of _ ?after] conjI)
qed

text \<open>
  A run in which the screen stream sends all three of its chunks before the webcam
  stream sends its first: the two walks are at different indices throughout, and the
  completion call follows both.
\<close>

theorem completion_after_both_streams_witness:
  "\<exists>r d' before after.
       dual_upload good_dual_backend [True, True, True] payload5 payload3 (Some dual_options)
         useDualUpload = Some (r, d')
     \<and> dual_complete_calls (dual_new_events useDualUpload d') = [''rec-2'']
     \<and> dual_new_events useDualUpload d' = before @ DualCompleteCall ''rec-2'' # after
     \<and> stream_calls Screen before = [0, 1, 2] \<and> stream_calls Webcam before = [0, 1]
     \<and> stream_calls Screen after = [] \<and> stream_calls Webcam after = []
     \<and> all_stream_calls (dual_new_events useDualUpload d')
         = [(Screen, 0), (Screen, 1), (Screen, 2), (Webcam, 0), (Webcam, 1)]"
proof -
  from good_dual_run obtain r d' where run: "dual_upload good_dual_backend [True, True, True]
        payload5 payload3 (Some dual_options) useDualUpload = Some (r, d')"
    and cc: "dual_complete_calls (dual_new_events useDualUpload d') = [''rec-2'']"
    and order: "all_stream_calls (dual_new_events useDualUpload d')
         = [(Screen, 0), (Screen, 1), (Screen, 2), (Webcam, 0), (Webcam, 1)]"
    by (elim exE conjE)
  have called: "dual_complete_calls (dual_new_events useDualUpload d') \<noteq> []"
    using cc by simp
  from completion_after_both_streams [OF run called]
  obtain opts position initResult before after where
    "Some dual_options = Some opts" "webcamPosition opts = Some position"
    and init: "initDualUpload good_dual_backend (length payload5) (length payload3)
           (webcamPositionToApiFormat position) (duration opts) = Inr initResult"
    and split: "dual_new_events useDualUpload d' =
           before @ DualCompleteCall (init_recordingId initResult) # after"
    and fin: "walk_ended (uploadScreenChunkFn good_dual_backend) (init_recordingId initResult)
           payload5 (init_chunkSize initResult) (stream_calls Screen before)"
         "walk_ended (uploadWebcamChunkFn good_dual_backend) (init_recordingId initResult)
           payload3 (init_chunkSize initResult) (stream_calls Webcam before)"
    and after: "stream_calls Screen after = []" "stream_calls Webcam after = []"
    and "dual_complete_calls before = []" "dual_complete_calls after = []"
    by (elim exE conjE)
  have rid: "init_recordingId initResult = ''rec-2''"
    using init by (auto simp: good_dual_backend_def scenarioC_backend_def)
  have split': "dual_new_events useDualUpload d' = before @ DualCompleteCall ''rec-2'' # after"
    using split rid by simp
  have s: "stream_calls Screen (dual_new_events useDualUpload d') = [0, 1, 2]"
    and w: "stream_calls Webcam (dual_new_events useDualUpload d') = [0, 1]"
    by (simp_all add: stream_calls_all order)
  have bs: "stream_calls Screen before = [0, 1, 2]"
    using s after(1) unfolding split' by (simp add: stream_calls_append)
  have bw: "stream_calls Webcam before = [0, 1]"
    using w after(2) unfolding split' by (simp add: stream_calls_append)
  from run cc split' bs bw after order show ?thesis
    by (intro exI [of _ r] exI [of _ d'] exI [of _ before] exI [of _ after] conjI)
qed

end
